theory Spec2Isabelle
  imports Main "HOL-Library.Sublist"
begin

section \<open>Python strings\<close>

text \<open>
  A Python \<open>str\<close> is a sequence of Unicode code points, so the model is a list of
  natural numbers. (The source's patterns mention the em dash, code point 8212, which is
  not a \<open>char\<close> of HOL.) \<open>str ''abc''\<close> writes an ASCII literal.
\<close>

type_synonym pystr = "nat list"

abbreviation str :: "string \<Rightarrow> pystr" where
  "str s \<equiv> map of_char s"

abbreviation cp :: "char \<Rightarrow> nat" where
  "cp c \<equiv> of_char c"

datatype error =
    UnboundLocalError
  | KeyError
  | TypeError
  | AttributeError
  | ValueError
  | ReplEscape

text \<open>
  \<open>ReplEscape\<close> is not a Python exception. \<open>re.sub\<close> interprets backslash escapes in
  its replacement argument; that interpretation is outside this model, and a call of
  \<open>re.sub\<close> whose replacement contains a backslash is reported as \<open>Inl ReplEscape\<close>.
  Nothing below is proved about what Python does in that case.
\<close>

section \<open>The regular expressions of the \<open>re\<close> module, as far as the source uses them\<close>

datatype citem = Ch char | Rg char char | Cp nat

fun in_item :: "nat \<Rightarrow> citem \<Rightarrow> bool" where
  "in_item c (Ch a) = (c = cp a)"
| "in_item c (Rg a b) = (cp a \<le> c \<and> c \<le> cp b)"
| "in_item c (Cp n) = (c = n)"

fun in_class :: "citem list \<Rightarrow> nat \<Rightarrow> bool" where
  "in_class [] c = False"
| "in_class (i # is) c = (if in_item c i then True else in_class is c)"

datatype regex =
    Eps
  | Bol
  | Eol
  | Dot
  | Lit char
  | Cls "citem list"
  | NCls "citem list"
  | Seq regex regex
  | Alt regex regex
  | Rep regex nat "nat option"
  | Grp nat regex

text \<open>
  \<open>Bol\<close> is \<open>^\<close>, \<open>Eol\<close> is \<open>$\<close>, \<open>Dot\<close> is \<open>.\<close>, \<open>Cls\<close> is \<open>[...]\<close>, \<open>NCls\<close> is
  \<open>[^...]\<close>, \<open>Rep r lo hi\<close> is the greedy repetition \<open>r{lo,hi}\<close> (\<open>hi = None\<close>: no upper
  bound), \<open>Grp n r\<close> is the capturing group number \<open>n\<close>.
\<close>

fun seqs :: "regex list \<Rightarrow> regex" where
  "seqs [] = Eps"
| "seqs [r] = r"
| "seqs (r # rs) = Seq r (seqs rs)"

fun alts :: "regex list \<Rightarrow> regex" where
  "alts [] = Eps"
| "alts [r] = r"
| "alts (r # rs) = Alt r (alts rs)"

definition lit :: "string \<Rightarrow> regex" where
  "lit s = seqs (map Lit s)"

abbreviation star :: "regex \<Rightarrow> regex" where
  "star r \<equiv> Rep r 0 None"

abbreviation plus :: "regex \<Rightarrow> regex" where
  "plus r \<equiv> Rep r 1 None"

abbreviation opt :: "regex \<Rightarrow> regex" where
  "opt r \<equiv> Rep r 0 (Some 1)"

fun rsize :: "regex \<Rightarrow> nat" where
  "rsize (Seq a b) = Suc (rsize a + rsize b)"
| "rsize (Alt a b) = Suc (rsize a + rsize b)"
| "rsize (Rep r lo hi) = Suc (rsize r)"
| "rsize (Grp n r) = Suc (rsize r)"
| "rsize r = 0"

text \<open>
  A state of the matcher: the position in the string, the rest of the string from there,
  and the groups captured so far (the latest capture of a group first).
\<close>

record mstate =
  pos :: nat
  rest :: pystr
  caps :: "(nat \<times> pystr) list"

definition advance :: "mstate \<Rightarrow> mstate" where
  "advance st = st\<lparr>pos := Suc (pos st), rest := tl (rest st)\<rparr>"

definition step_if :: "(nat \<Rightarrow> bool) \<Rightarrow> mstate \<Rightarrow> mstate list" where
  "step_if P st = (case rest st of [] \<Rightarrow> [] | c # cs \<Rightarrow> if P c then [advance st] else [])"

definition capture :: "nat \<Rightarrow> mstate \<Rightarrow> mstate \<Rightarrow> mstate" where
  "capture n st st' = st'\<lparr>caps := (n, take (pos st' - pos st) (rest st)) # caps st'\<rparr>"

definition dec_hi :: "nat option \<Rightarrow> nat option" where
  "dec_hi hi = (case hi of None \<Rightarrow> None | Some h \<Rightarrow> Some (h - 1))"

text \<open>
  The backtracking matcher. \<open>ms r st\<close> lists the states in which a match of \<open>r\<close> that
  starts in \<open>st\<close> can end, in the order in which the backtracking search of \<open>re\<close> tries
  them: the left alternative before the right one, one more iteration of a greedy
  repetition before stopping. The head of the list is the match that \<open>re\<close> reports.
  \<open>^\<close> matches at position 0 only and \<open>$\<close> at the end or before a final newline (no
  \<open>MULTILINE\<close>); \<open>.\<close> matches everything but a newline (no \<open>DOTALL\<close>).
  An iteration of a repetition that consumes nothing ends the repetition; no repetition
  in the patterns of the source has such an iteration.
\<close>

function ms :: "regex \<Rightarrow> mstate \<Rightarrow> mstate list" where
  "ms Eps st = [st]"
| "ms Bol st = (if pos st = 0 then [st] else [])"
| "ms Eol st = (if rest st = [] \<or> rest st = [10] then [st] else [])"
| "ms Dot st = step_if (\<lambda>c. c \<noteq> 10) st"
| "ms (Lit a) st = step_if (\<lambda>c. c = cp a) st"
| "ms (Cls is) st = step_if (in_class is) st"
| "ms (NCls is) st = step_if (\<lambda>c. \<not> in_class is c) st"
| "ms (Seq a b) st = concat (map (ms b) (ms a st))"
| "ms (Alt a b) st = ms a st @ ms b st"
| "ms (Grp n r) st = map (capture n st) (ms r st)"
| "ms (Rep r lo hi) st =
     (if hi = Some 0 then [st]
      else concat (map (\<lambda>st'. if length (rest st') < length (rest st)
                               then ms (Rep r (lo - 1) (dec_hi hi)) st' else [])
                       (ms r st))
           @ (if lo = 0 then [st] else []))"
  by pat_completeness auto
termination
  by (relation "measures [\<lambda>(r, st). rsize r, \<lambda>(r, st). length (rest st)]") auto


text \<open>
  A match object: where the match starts and ends, and its groups. \<open>group mt n\<close> is
  \<open>None\<close> when group \<open>n\<close> took no part in the match, as in Python.
\<close>

record rmatch =
  m_start :: nat
  m_end :: nat
  m_groups :: "(nat \<times> pystr) list"

definition group :: "rmatch \<Rightarrow> nat \<Rightarrow> pystr option" where
  "group mt n = map_of (m_groups mt) n"

definition match_at :: "regex \<Rightarrow> nat \<Rightarrow> pystr \<Rightarrow> rmatch option" where
  "match_at r p s =
     (case ms r \<lparr>pos = p, rest = s, caps = []\<rparr> of
        [] \<Rightarrow> None
      | st # _ \<Rightarrow> Some \<lparr>m_start = p, m_end = pos st, m_groups = caps st\<rparr>)"

text \<open>\<open>re.match\<close>: a match that starts at the beginning of the string.\<close>

definition re_match :: "regex \<Rightarrow> pystr \<Rightarrow> rmatch option" where
  "re_match r s = match_at r 0 s"

text \<open>\<open>re.search\<close>: the leftmost match. \<open>s\<close> is the string from position \<open>p\<close> on.\<close>

fun search_from :: "regex \<Rightarrow> nat \<Rightarrow> pystr \<Rightarrow> rmatch option" where
  "search_from r p [] = match_at r p []"
| "search_from r p (c # cs) =
     (case match_at r p (c # cs) of
        Some mt \<Rightarrow> Some mt
      | None \<Rightarrow> search_from r (Suc p) cs)"

definition re_search :: "regex \<Rightarrow> pystr \<Rightarrow> rmatch option" where
  "re_search r s = search_from r 0 s"

text \<open>
  \<open>re.finditer\<close>: the matches from left to right, each search starting where the
  previous match ended. After a match that consumed nothing the scan moves on by one
  character (no pattern of the source matches the empty string).
\<close>

function finditer_from :: "regex \<Rightarrow> nat \<Rightarrow> pystr \<Rightarrow> rmatch list" where
  "finditer_from r p s =
     (case match_at r p s of
        Some mt \<Rightarrow>
          mt # (if s = [] then []
                else if m_end mt \<le> p then finditer_from r (Suc p) (tl s)
                else finditer_from r (m_end mt) (drop (m_end mt - p) s))
      | None \<Rightarrow> (case s of [] \<Rightarrow> [] | c # cs \<Rightarrow> finditer_from r (Suc p) cs))"
  by pat_completeness auto
termination
  by (relation "measure (\<lambda>(r, p, s). length s)") (auto simp: neq_Nil_conv)

definition finditer :: "regex \<Rightarrow> pystr \<Rightarrow> rmatch list" where
  "finditer r s = finditer_from r 0 s"

text \<open>
  \<open>re.sub\<close> with a replacement free of backslashes, which stands for itself: every match
  of the scan above is replaced by \<open>repl\<close>.
\<close>

function sub_from :: "regex \<Rightarrow> pystr \<Rightarrow> nat \<Rightarrow> pystr \<Rightarrow> pystr" where
  "sub_from r repl p s =
     (case match_at r p s of
        Some mt \<Rightarrow>
          repl @ (if s = [] then []
                  else if m_end mt \<le> p then hd s # sub_from r repl (Suc p) (tl s)
                  else sub_from r repl (m_end mt) (drop (m_end mt - p) s))
      | None \<Rightarrow> (case s of [] \<Rightarrow> [] | c # cs \<Rightarrow> c # sub_from r repl (Suc p) cs))"
  by pat_completeness auto
termination
  by (relation "measure (\<lambda>(r, repl, p, s). length s)") (auto simp: neq_Nil_conv)

definition re_sub :: "regex \<Rightarrow> pystr \<Rightarrow> pystr \<Rightarrow> error + pystr" where
  "re_sub r repl s =
     (if cp CHR 0x5C \<in> set repl then Inl ReplEscape else Inr (sub_from r repl 0 s))"

section \<open>The patterns of \<open>channel_message_to_zerver_message\<close>\<close>

text \<open>
  The patterns are compiled with \<open>re.VERBOSE\<close>: white space outside a character class
  and comments are not part of them.
\<close>

definition alnum :: regex where
  "alnum = Cls [Rg CHR ''a'' CHR ''z'', Rg CHR ''A'' CHR ''Z'', Rg CHR ''0'' CHR ''9'']"

definition lower_digit :: regex where
  "lower_digit = Cls [Rg CHR ''a'' CHR ''z'', Rg CHR ''0'' CHR ''9'']"

definition LINK_REGEX :: regex where
  "LINK_REGEX = seqs
     [Bol, Lit CHR ''<'',
      opt (Grp 1 (alts [lit ''http://www.'', lit ''https://www.'', lit ''http://'', lit ''https://''])),
      plus lower_digit,
      star (Grp 2 (Seq (Rep (Cls [Ch CHR ''-'', Ch CHR ''.'']) 1 (Some 1)) (plus lower_digit))),
      Lit CHR ''.'',
      Rep (Cls [Rg CHR ''a'' CHR ''z'']) 2 (Some 5),
      opt (Grp 3 (Seq (Lit CHR '':'') (Rep (Cls [Rg CHR ''0'' CHR ''9'']) 1 (Some 5)))),
      opt (Grp 4 (Seq (Lit CHR ''/'') (star Dot))),
      opt (Grp 5 (Lit CHR ''|'')),
      opt (Seq (Lit CHR ''|'') (Grp 6 (plus (NCls [Ch CHR ''>''])))),
      Lit CHR ''>'', Eol]"

definition SLACK_USERMENTION_REGEX :: regex where
  "SLACK_USERMENTION_REGEX = seqs
     [Grp 1 (lit ''<@''),
      Grp 2 (plus alnum),
      opt (Grp 3 (Lit CHR ''|'')),
      opt (Grp 4 (plus alnum)),
      Grp 5 (Lit CHR ''>'')]"

text \<open>The characters after which, and before which, a formatting delimiter counts.\<close>

definition start_after :: regex where
  "start_after = alts
     [Bol, Cls [Rg CHR '' '' CHR ''(''], Cls [Rg CHR ''+'' CHR ''/''], Cls [Rg CHR '':'' CHR ''?''],
      Lit CHR ''{'', Lit CHR ''['', Lit CHR ''|'', Lit CHR ''^'']"

definition ends_with :: regex where
  "ends_with = alts
     [Eol, Cls [Rg CHR '' '' CHR 0x27], Cls [Rg CHR ''+'' CHR ''/''], Cls [Rg CHR '':'' CHR ''?''],
      Lit CHR ''}'', Lit CHR '')'', Lit CHR '']'', Lit CHR ''|'', Lit CHR ''^'']"

definition SLACK_STRIKETHROUGH_REGEX :: regex where
  "SLACK_STRIKETHROUGH_REGEX = seqs
     [Grp 1 start_after,
      Grp 2 (Lit CHR ''~''),
      Grp 3 (star (Cls [Rg CHR '' '' CHR '')'', Rg CHR ''+'' CHR ''}'', Cp 8212])),
      Grp 4 (plus (Cls [Rg CHR ''!'' CHR ''}''])),
      Grp 5 (Lit CHR ''~''),
      Grp 6 ends_with]"

definition SLACK_ITALIC_REGEX :: regex where
  "SLACK_ITALIC_REGEX = seqs
     [Grp 1 start_after,
      Grp 2 (Lit CHR ''_''),
      Grp 3 (star (Cls [Rg CHR '' '' CHR ''~'', Cp 8212])),
      Grp 4 (plus (Cls [Rg CHR ''!'' CHR ''}''])),
      Grp 5 (Lit CHR ''_''),
      Grp 6 ends_with]"

definition SLACK_BOLD_REGEX :: regex where
  "SLACK_BOLD_REGEX = seqs
     [Grp 1 start_after,
      Grp 2 (Lit CHR ''*''),
      Grp 3 (star (Cls [Rg CHR '' '' CHR ''~'', Cp 8212])),
      Grp 4 (plus (Cls [Rg CHR ''!'' CHR ''}''])),
      Grp 5 (Lit CHR ''*''),
      Grp 6 ends_with]"


section \<open>String methods\<close>

text \<open>
  \<open>s.replace(old, new)\<close>: the occurrences of \<open>old\<close> are replaced from left to right,
  without overlap; an empty \<open>old\<close> matches before every character and at the end.
\<close>

function replace_str :: "pystr \<Rightarrow> pystr \<Rightarrow> pystr \<Rightarrow> pystr" where
  "replace_str old new s =
     (if old = [] then new @ concat (map (\<lambda>c. c # new) s)
      else if s = [] then []
      else if take (length old) s = old then new @ replace_str old new (drop (length old) s)
      else hd s # replace_str old new (tl s))"
  by pat_completeness auto
termination
  by (relation "measure (\<lambda>(old, new, s). length s)") (auto simp: neq_Nil_conv)

text \<open>\<open>s.split(' ')\<close> and \<open>' '.join(tokens)\<close>.\<close>

fun split_sp :: "pystr \<Rightarrow> pystr list" where
  "split_sp [] = [[]]"
| "split_sp (c # cs) =
     (if c = cp CHR '' '' then [] # split_sp cs
      else (case split_sp cs of [] \<Rightarrow> [[c]] | t # ts \<Rightarrow> (c # t) # ts))"

fun join_sp :: "pystr list \<Rightarrow> pystr" where
  "join_sp [] = []"
| "join_sp [t] = t"
| "join_sp (t # ts) = t @ cp CHR '' '' # join_sp ts"

section \<open>The user directory\<close>

text \<open>
  An entry of \<open>users.json\<close>, with the keys the source reads (\<open>user['id']\<close>,
  \<open>user['name']\<close>, \<open>user['real_name']\<close>, \<open>user['deleted']\<close>), and \<open>added_users\<close>, the
  dictionary from Slack user ids to Zulip user ids. The source indexes the four keys, so
  an object that lacks one of them (the source raises \<open>KeyError\<close> when it reads it) is
  not a value of this record; \<open>deleted\<close> is a JSON boolean.
\<close>

record slack_user =
  u_id :: pystr
  u_name :: pystr
  u_real_name :: pystr
  u_deleted :: bool

type_synonym AddedUsersT = "pystr \<rightharpoonup> int"

type_synonym AddedChannelsT = "pystr \<rightharpoonup> int"

definition get_user_full_name :: "slack_user \<Rightarrow> pystr" where
  "get_user_full_name user =
     (if u_deleted user = False then
        (if u_real_name user = [] then u_name user else u_real_name user)
      else u_name user)"

section \<open>The markdown mapping\<close>

text \<open>
  \<open>convert_markdown_syntax\<close>: the loop runs over the matches of \<open>regex\<close> in the text it
  was given; each turn builds \<open>converted_token\<close> from the groups of its match and replaces
  every match in the current text by it.
\<close>

fun markdown_loop :: "regex \<Rightarrow> pystr \<Rightarrow> rmatch list \<Rightarrow> pystr \<Rightarrow> error + pystr" where
  "markdown_loop regex zulip_keyword [] text = Inr text"
| "markdown_loop regex zulip_keyword (mt # mts) text =
     (case (group mt 1, group mt 3, group mt 4, group mt 6) of
        (Some g1, Some g3, Some g4, Some g6) \<Rightarrow>
          (case re_sub regex (g1 @ zulip_keyword @ g3 @ g4 @ zulip_keyword @ g6) text of
             Inl e \<Rightarrow> Inl e
           | Inr text' \<Rightarrow> markdown_loop regex zulip_keyword mts text')
      | _ \<Rightarrow> Inl TypeError)"

definition convert_markdown_syntax :: "pystr \<Rightarrow> regex \<Rightarrow> pystr \<Rightarrow> error + pystr" where
  "convert_markdown_syntax text regex zulip_keyword =
     markdown_loop regex zulip_keyword (finditer regex text) text"

text \<open>
  \<open>get_user_mentions\<close>: the loop over \<open>users\<close> assigns \<open>full_name\<close>, \<open>user_id\<close> and
  \<open>mention\<close> at every entry that satisfies the condition, so the last such entry
  decides. The loop state is \<open>None\<close> as long as the three variables are unbound.
\<close>

definition truthy :: "pystr option \<Rightarrow> bool" where
  "truthy v = (case v of None \<Rightarrow> False | Some s \<Rightarrow> s \<noteq> [])"

definition mention_matches :: "slack_user \<Rightarrow> pystr option \<Rightarrow> pystr option \<Rightarrow> bool" where
  "mention_matches user slack_id short_name =
     ((Some (u_id user) = slack_id \<and> Some (u_name user) = short_name \<and> truthy short_name) \<or>
      (Some (u_id user) = slack_id \<and> short_name = None))"

definition lookup_added :: "AddedUsersT \<Rightarrow> pystr option \<Rightarrow> error + int" where
  "lookup_added added_users slack_id =
     (case slack_id of
        None \<Rightarrow> Inl KeyError
      | Some k \<Rightarrow> (case added_users k of None \<Rightarrow> Inl KeyError | Some v \<Rightarrow> Inr v))"

fun users_loop ::
  "slack_user list \<Rightarrow> AddedUsersT \<Rightarrow> pystr option \<Rightarrow> pystr option \<Rightarrow>
   (pystr \<times> int) option \<Rightarrow> error + (pystr \<times> int) option" where
  "users_loop [] added_users slack_id short_name bound = Inr bound"
| "users_loop (user # users) added_users slack_id short_name bound =
     (if mention_matches user slack_id short_name then
        (let full_name = get_user_full_name user in
         case lookup_added added_users slack_id of
           Inl e \<Rightarrow> Inl e
         | Inr user_id \<Rightarrow>
             users_loop users added_users slack_id short_name
               (Some (str ''@**'' @ full_name @ str ''** '', user_id)))
      else users_loop users added_users slack_id short_name bound)"

definition get_user_mentions ::
  "slack_user list \<Rightarrow> AddedUsersT \<Rightarrow> pystr \<Rightarrow> error + (pystr \<times> int)" where
  "get_user_mentions users added_users token =
     (case re_search SLACK_USERMENTION_REGEX token of
        None \<Rightarrow> Inl AttributeError
      | Some slack_usermention_match \<Rightarrow>
          (let short_name = group slack_usermention_match 4;
               slack_id = group slack_usermention_match 2
           in case users_loop users added_users slack_id short_name None of
                Inl e \<Rightarrow> Inl e
              | Inr None \<Rightarrow> Inl UnboundLocalError
              | Inr (Some (mention, user_id)) \<Rightarrow>
                  (case re_sub SLACK_USERMENTION_REGEX mention token of
                     Inl e \<Rightarrow> Inl e
                   | Inr token' \<Rightarrow> Inr (token', user_id))))"

text \<open>
  One turn of the loop over the tokens of \<open>convert_to_zulip_markdown\<close>: the token after
  the turn, the user ids it appends to \<open>mentioned_users_id\<close>, and whether it sets
  \<open>has_link\<close>. The link pattern is tried on the token as the mention step left it.
\<close>

definition convert_token ::
  "slack_user list \<Rightarrow> AddedUsersT \<Rightarrow> pystr \<Rightarrow> error + (pystr \<times> int list \<times> bool)" where
  "convert_token users added_users token =
     (case (if re_match SLACK_USERMENTION_REGEX token \<noteq> None
            then (case get_user_mentions users added_users token of
                    Inl e \<Rightarrow> Inl e
                  | Inr (token', user_id) \<Rightarrow> Inr (token', [user_id]))
            else Inr (token, [])) of
        Inl e \<Rightarrow> Inl e
      | Inr (token1, ids) \<Rightarrow>
          if re_match LINK_REGEX token1 \<noteq> None
          then Inr (replace_str (str ''>'') [] (replace_str (str ''<'') [] token1), ids, True)
          else Inr (token1, ids, False))"

fun tokens_loop ::
  "slack_user list \<Rightarrow> AddedUsersT \<Rightarrow> pystr list \<Rightarrow> pystr list \<times> int list \<times> bool \<Rightarrow>
   error + (pystr list \<times> int list \<times> bool)" where
  "tokens_loop users added_users [] state = Inr state"
| "tokens_loop users added_users (token # tokens) (done, mentioned_users_id, has_link) =
     (case convert_token users added_users token of
        Inl e \<Rightarrow> Inl e
      | Inr (token', ids, link) \<Rightarrow>
          tokens_loop users added_users tokens
            (done @ [token'], mentioned_users_id @ ids, has_link \<or> link))"

definition markdown_passes :: "pystr \<Rightarrow> error + pystr" where
  "markdown_passes text =
     (case convert_markdown_syntax text SLACK_STRIKETHROUGH_REGEX (str ''~~'') of
        Inl e \<Rightarrow> Inl e
      | Inr text1 \<Rightarrow>
          (case convert_markdown_syntax text1 SLACK_ITALIC_REGEX (str ''*'') of
             Inl e \<Rightarrow> Inl e
           | Inr text2 \<Rightarrow> convert_markdown_syntax text2 SLACK_BOLD_REGEX (str ''**'')))"

definition convert_to_zulip_markdown ::
  "slack_user list \<Rightarrow> AddedUsersT \<Rightarrow> pystr \<Rightarrow> error + (pystr \<times> int list \<times> bool)" where
  "convert_to_zulip_markdown users added_users text =
     (case markdown_passes text of
        Inl e \<Rightarrow> Inl e
      | Inr text3 \<Rightarrow>
          (let text4 = replace_str (str ''<!everyone>'') (str ''@**all**'') text3;
               tokens = split_sp text4
           in case tokens_loop users added_users tokens ([], [], False) of
                Inl e \<Rightarrow> Inl e
              | Inr (tokens', mentioned_users_id, has_link) \<Rightarrow>
                  Inr (join_sp tokens', mentioned_users_id, has_link)))"


section \<open>The loop over the messages of a channel\<close>

text \<open>
  A message of the Slack export, with the keys the loop reads. \<open>message['text']\<close> and
  \<open>message['ts']\<close> are read unconditionally; \<open>subtype\<close>, \<open>user\<close> and \<open>has_image\<close> are
  looked for (\<open>None\<close>: the key is absent); \<open>msg_file_user\<close> is
  \<open>message['file']['user']\<close> (\<open>None\<close>: one of the two keys is absent).
  The type of \<open>ts\<close> and Python's \<open>float\<close> on it are parameters: floating point is
  not modelled (\<open>float\<close> may raise, \<open>ValueError\<close> for instance). Reading the files is
  not modelled either.
\<close>

record 'ts slack_message =
  msg_text :: pystr
  msg_subtype :: "pystr option"
  msg_user :: "pystr option"
  msg_file_user :: "pystr option"
  msg_has_image :: "bool option"
  msg_ts :: 'ts

record subscription =
  sub_recipient :: int
  sub_user_profile :: int

record 'pd zulip_message =
  sending_client :: int
  rendered_content_version :: int
  has_image :: bool
  subject :: pystr
  pub_date :: 'pd
  zm_id :: int
  has_attachment :: bool
  edit_history :: "unit option"
  sender :: int
  content :: pystr
  rendered_content :: "unit option"
  recipient :: int
  last_edit_time :: "unit option"
  has_link :: bool

record usermessage =
  um_user_profile :: int
  um_id :: int
  flags_mask :: int
  um_message :: int

text \<open>
  The state of the loop: \<open>zerver_message\<close>, \<open>zerver_usermessage\<close>, \<open>message_id\<close> and
  \<open>usermessage_id\<close>.
\<close>

type_synonym 'pd loop_state = "'pd zulip_message list \<times> usermessage list \<times> int \<times> int"

definition skipped_subtype :: "pystr option \<Rightarrow> bool" where
  "skipped_subtype st =
     (case st of
        None \<Rightarrow> False
      | Some subtype \<Rightarrow>
          subtype \<in> set [str ''channel_join'', str ''channel_leave'', str ''channel_name''])"

text \<open>
  \<open>message.get('user', message['file']['user'])\<close> evaluates its default first; the
  \<open>KeyError\<close> of a missing file user is caught and \<open>message['user']\<close> is read instead.
\<close>

definition message_user :: "'ts slack_message \<Rightarrow> error + pystr" where
  "message_user message =
     (case msg_file_user message of
        Some file_user \<Rightarrow>
          (case msg_user message of Some u \<Rightarrow> Inr u | None \<Rightarrow> Inr file_user)
      | None \<Rightarrow>
          (case msg_user message of Some u \<Rightarrow> Inr u | None \<Rightarrow> Inl KeyError))"

fun usermessages ::
  "subscription list \<Rightarrow> int \<Rightarrow> int \<Rightarrow> int list \<Rightarrow> usermessage list \<times> int \<Rightarrow>
   usermessage list \<times> int" where
  "usermessages [] rcp mid mentioned_users_id state = state"
| "usermessages (subscription # subs) rcp mid mentioned_users_id
     (zerver_usermessage, usermessage_id) =
     (if sub_recipient subscription = rcp then
        usermessages subs rcp mid mentioned_users_id
          (zerver_usermessage @
             [\<lparr>um_user_profile = sub_user_profile subscription,
               um_id = usermessage_id,
               flags_mask = (if sub_user_profile subscription \<in> set mentioned_users_id
                             then 9 else 1),
               um_message = mid\<rparr>],
           usermessage_id + 1)
      else usermessages subs rcp mid mentioned_users_id (zerver_usermessage, usermessage_id))"

text \<open>
  One turn of the loop over the messages. The text is converted first; the test of the
  subtype follows.
\<close>

fun message_step ::
  "('ts \<Rightarrow> error + 'pd) \<Rightarrow> slack_user list \<Rightarrow> AddedUsersT \<Rightarrow> AddedChannelsT \<Rightarrow>
   subscription list \<Rightarrow> pystr \<Rightarrow> 'ts slack_message \<Rightarrow> 'pd loop_state \<Rightarrow>
   error + 'pd loop_state" where
  "message_step float users added_users added_channels zerver_subscription channel message
     (zerver_message, zerver_usermessage, message_id, usermessage_id) =
     (case convert_to_zulip_markdown users added_users (msg_text message) of
        Inl e \<Rightarrow> Inl e
      | Inr (content', mentioned_users_id, has_link') \<Rightarrow>
          if skipped_subtype (msg_subtype message)
          then Inr (zerver_message, zerver_usermessage, message_id, usermessage_id)
          else
            (case message_user message of
               Inl e \<Rightarrow> Inl e
             | Inr user \<Rightarrow>
            (case float (msg_ts message) of
               Inl e \<Rightarrow> Inl e
             | Inr pub \<Rightarrow>
            (case added_users user of
               None \<Rightarrow> Inl KeyError
             | Some sender' \<Rightarrow>
            (case added_channels channel of
               None \<Rightarrow> Inl KeyError
             | Some recipient' \<Rightarrow>
                 (let zulip_message =
                        \<lparr>sending_client = 1,
                         rendered_content_version = 1,
                         has_image = (case msg_has_image message of None \<Rightarrow> False | Some b \<Rightarrow> b),
                         subject = channel,
                         pub_date = pub,
                         zm_id = message_id,
                         has_attachment = False,
                         edit_history = None,
                         sender = sender',
                         content = content',
                         rendered_content = None,
                         recipient = recipient',
                         last_edit_time = None,
                         has_link = has_link'\<rparr>;
                      (zerver_usermessage', usermessage_id') =
                        usermessages zerver_subscription recipient' message_id
                          mentioned_users_id (zerver_usermessage, usermessage_id)
                  in Inr (zerver_message @ [zulip_message], zerver_usermessage',
                          message_id + 1, usermessage_id')))))))"

fun messages_loop ::
  "('ts \<Rightarrow> error + 'pd) \<Rightarrow> slack_user list \<Rightarrow> AddedUsersT \<Rightarrow> AddedChannelsT \<Rightarrow>
   subscription list \<Rightarrow> pystr \<Rightarrow> 'ts slack_message list \<Rightarrow> 'pd loop_state \<Rightarrow>
   error + 'pd loop_state" where
  "messages_loop float users added_users added_channels subs channel [] state = Inr state"
| "messages_loop float users added_users added_channels subs channel (message # messages) state =
     (case message_step float users added_users added_channels subs channel message state of
        Inl e \<Rightarrow> Inl e
      | Inr state' \<Rightarrow>
          messages_loop float users added_users added_channels subs channel messages state')"

text \<open>
  \<open>channel_message_to_zerver_message\<close>. The files of the channel are given as the lists
  of messages read from them, in the order of \<open>os.listdir\<close>; \<open>users\<close> is the content of
  \<open>users.json\<close>; \<open>ids\<close> is the pair \<open>(message_id, usermessage_id)\<close>.
\<close>

definition channel_message_to_zerver_message ::
  "('ts \<Rightarrow> error + 'pd) \<Rightarrow> slack_user list \<Rightarrow> 'ts slack_message list list \<Rightarrow> pystr \<Rightarrow>
   AddedUsersT \<Rightarrow> AddedChannelsT \<Rightarrow> subscription list \<Rightarrow> int \<times> int \<Rightarrow>
   error + ('pd zulip_message list \<times> usermessage list)" where
  "channel_message_to_zerver_message float users files channel added_users added_channels
     zerver_subscription ids =
     (case messages_loop float users added_users added_channels zerver_subscription channel
             (concat files) ([], [], fst ids, snd ids) of
        Inl e \<Rightarrow> Inl e
      | Inr (zerver_message, zerver_usermessage, message_id, usermessage_id) \<Rightarrow>
          Inr (zerver_message, zerver_usermessage))"


section \<open>Asterisks that cannot open a bold pattern\<close>

text \<open>
  Two notions for the proofs about texts that the rewrite has produced: \<open>boundary c\<close>
  says that \<open>c\<close> is one of the characters after which a delimiter counts (the classes
  of \<open>start_after\<close>), and \<open>guarded b s\<close> that every asterisk of \<open>s\<close> follows a character
  that is not one of them; \<open>b\<close> says whether an asterisk may stand first.
\<close>

definition boundary :: "nat \<Rightarrow> bool" where
  "boundary c = in_class [Rg CHR '' '' CHR ''('', Rg CHR ''+'' CHR ''/'', Rg CHR '':'' CHR ''?'',
                          Ch CHR ''{'', Ch CHR ''['', Ch CHR ''|'', Ch CHR ''^''] c"

fun guarded :: "bool \<Rightarrow> pystr \<Rightarrow> bool" where
  "guarded b [] = True"
| "guarded b (c # s) = ((if c = cp CHR ''*'' then b else True) \<and> guarded (\<not> boundary c) s)"

text \<open>What the loop over the tokens does to a token that is no mention.\<close>

definition strip_link :: "pystr \<Rightarrow> pystr" where
  "strip_link token =
     (if re_match LINK_REGEX token \<noteq> None
      then replace_str (str ''>'') [] (replace_str (str ''<'') [] token)
      else token)"

section \<open>Notions for the proofs about the patterns\<close>

text \<open>
  \<open>heads r st x\<close>: the first match of \<open>r\<close> from \<open>st\<close>, the one that \<open>re\<close> reports, ends
  in \<open>x\<close>. \<open>skip n st\<close> is \<open>st\<close> moved on by \<open>n\<close> characters. \<open>is_alnum\<close> is the class
  \<open>[a-zA-Z0-9]\<close> of the mention pattern. A token is \<open>plain\<close> when it has no space, no
  delimiter character and no \<open><\<close>.
\<close>

definition heads :: "regex \<Rightarrow> mstate \<Rightarrow> mstate \<Rightarrow> bool" where
  "heads r st x = (\<exists>tl. ms r st = x # tl)"

definition skip :: "nat \<Rightarrow> mstate \<Rightarrow> mstate" where
  "skip n st = st\<lparr>pos := pos st + n, rest := drop n (rest st)\<rparr>"

abbreviation is_alnum :: "nat \<Rightarrow> bool" where
  "is_alnum c \<equiv> in_class [Rg CHR ''a'' CHR ''z'', Rg CHR ''A'' CHR ''Z'', Rg CHR ''0'' CHR ''9''] c"

definition plain :: "pystr \<Rightarrow> bool" where
  "plain t = (cp CHR '' '' \<notin> set t \<and> cp CHR ''~'' \<notin> set t \<and> cp CHR ''_'' \<notin> set t \<and>
              cp CHR ''*'' \<notin> set t \<and> cp CHR ''<'' \<notin> set t)"

section \<open>Example data\<close>

text \<open>The directory entry of the examples: id \<open>U1\<close>, handle \<open>bob\<close>, name \<open>Bob Smith\<close>.\<close>

definition bob :: slack_user where
  "bob = \<lparr>u_id = str ''U1'', u_name = str ''bob'', u_real_name = str ''Bob Smith'',
           u_deleted = False\<rparr>"

section \<open>Evaluation on concrete inputs\<close>

declare finditer_from.simps [simp del] sub_from.simps [simp del] replace_str.simps [simp del]
  ms.simps(11) [simp del]

lemmas eval_simps =
  ms.simps(11) finditer_def finditer_from.simps sub_from.simps replace_str.simps
  match_at_def re_match_def re_search_def re_sub_def group_def
  alnum_def lower_digit_def LINK_REGEX_def SLACK_USERMENTION_REGEX_def start_after_def ends_with_def
  SLACK_STRIKETHROUGH_REGEX_def SLACK_ITALIC_REGEX_def SLACK_BOLD_REGEX_def lit_def
  step_if_def advance_def capture_def dec_hi_def
  convert_markdown_syntax_def markdown_passes_def convert_to_zulip_markdown_def convert_token_def
  get_user_mentions_def truthy_def mention_matches_def lookup_added_def get_user_full_name_def

section \<open>The display name\<close>

text \<open>
  C8. The display name of a directory entry is its real name when that is not empty and
  the entry is not deleted, and its short handle otherwise; the mention that
  \<open>get_user_mentions\<close> builds for an entry is made of this name.
\<close>

theorem display_name:
  "get_user_full_name user =
     (if u_real_name user \<noteq> [] \<and> \<not> u_deleted user then u_real_name user else u_name user)
   \<and> users_loop [user] added_users (Some (u_id user)) None bound =
     (case added_users (u_id user) of
        None \<Rightarrow> Inl KeyError
      | Some n \<Rightarrow>
          Inr (Some (str ''@**'' @
                     (if u_real_name user \<noteq> [] \<and> \<not> u_deleted user
                      then u_real_name user else u_name user) @ str ''** '', n)))"
  by (simp add: get_user_full_name_def mention_matches_def lookup_added_def
      split: option.split)

section \<open>Links\<close>

text \<open>
  C6. The text \<open><https://example.com>\<close> is rewritten to \<open>https://example.com\<close>, with no
  mentioned user and the link flag set, whatever the directory.
\<close>

theorem link_stripping:
  "convert_to_zulip_markdown users added_users (str ''<https://example.com>'') =
     Inr (str ''https://example.com'', [], True)"
  by (simp add: eval_simps)

section \<open>Bold and italic\<close>

text \<open>
  C2. On \<open>a *bold* and _ital_ b\<close> the italic pass yields \<open>a *bold* and *ital* b\<close>, and the
  bold pass, which scans that text, matches from the first asterisk to the last one: the
  result is \<open>a **bold* and *ital** b\<close>, not \<open>a **bold** and *ital* b\<close>.
\<close>

theorem bold_italic_remap:
  "convert_markdown_syntax (str ''a *bold* and _ital_ b'') SLACK_ITALIC_REGEX (str ''*'') =
     Inr (str ''a *bold* and *ital* b'')
   \<and> convert_to_zulip_markdown users added_users (str ''a *bold* and _ital_ b'') =
     Inr (str ''a **bold* and *ital** b'', [], False)"
  by (simp add: eval_simps)

lemma italic_becomes_bold:
  "convert_to_zulip_markdown users added_users (str ''a _ital_ b'') =
     Inr (str ''a **ital** b'', [], False)"
  by (simp add: eval_simps)


section \<open>Mentions\<close>

lemma users_loop_unmatched:
  "\<forall>u\<in>set users. \<not> mention_matches u slack_id short_name \<Longrightarrow>
   users_loop users added_users slack_id short_name bound = Inr bound"
  by (induction users) simp_all

lemma users_loop_unique:
  assumes "user \<in> set users"
    and "\<forall>u\<in>set users. mention_matches u slack_id short_name \<longrightarrow> u = user"
    and "mention_matches user slack_id short_name"
    and "lookup_added added_users slack_id = Inr n"
  shows "users_loop users added_users slack_id short_name bound =
         Inr (Some (str ''@**'' @ get_user_full_name user @ str ''** '', n))"
  using assms(1,2)
proof (induction users arbitrary: bound)
  case Nil
  then show ?case by simp
next
  case (Cons u us)
  show ?case
  proof (cases "user \<in> set us")
    case True
    have ih: "\<And>b. users_loop us added_users slack_id short_name b =
         Inr (Some (str ''@**'' @ get_user_full_name user @ str ''** '', n))"
      using Cons.IH [OF True] Cons.prems(2) by simp
    show ?thesis
    proof (cases "mention_matches u slack_id short_name")
      case True
      then show ?thesis using assms(4) ih by (simp add: Let_def)
    next
      case False
      then show ?thesis using ih by simp
    qed
  next
    case False
    with Cons.prems have u: "u = user"
      and none: "\<forall>v\<in>set us. \<not> mention_matches v slack_id short_name"
      by auto
    show ?thesis
      using assms(3,4) u by (simp add: Let_def users_loop_unmatched [OF none])
  qed
qed

text \<open>
  C4, as the claim states it: with the entry of \<open>bob\<close> in the directory and Zulip id 7
  for \<open>U1\<close> in \<open>added_users\<close>, the token \<open><@U1|bob>\<close> becomes \<open>@**Bob Smith** \<close>, and the
  list of mentioned users is \<open>[7]\<close>: it holds \<open>added_users['U1']\<close>, an integer, and not
  the Slack identifier \<open>U1\<close>.
\<close>

theorem mention_resolution_counterexample:
  "convert_to_zulip_markdown [bob] [str ''U1'' \<mapsto> 7] (str ''<@U1|bob>'') =
     Inr (str ''@**Bob Smith** '', [7], False)"
  by (simp add: eval_simps bob_def)

section \<open>Messages that are skipped\<close>

text \<open>
  C7, as the claim states it: a \<open>channel_join\<close> message would be skipped before its text
  is rewritten. The loop rewrites the text first: when the rewrite raises, as here on a
  mention of a handle that the directory does not have, the conversion of the channel
  raises, although the message is one that is skipped.
\<close>

theorem skipped_subtypes_counterexample:
  "channel_message_to_zerver_message (Inr :: unit \<Rightarrow> error + unit) [bob]
     [[\<lparr>msg_text = str ''<@U1|bobby> has joined the channel'',
        msg_subtype = Some (str ''channel_join''),
        msg_user = Some (str ''U1''), msg_file_user = None, msg_has_image = None,
        msg_ts = ()\<rparr>]]
     (str ''general'') [str ''U1'' \<mapsto> 7] [str ''general'' \<mapsto> 3] [] (1, 1) =
   Inl UnboundLocalError"
  by (simp add: channel_message_to_zerver_message_def eval_simps bob_def)

text \<open>
  C7, amended. For a message of subtype \<open>channel_join\<close>, \<open>channel_leave\<close> or
  \<open>channel_name\<close> the loop applies the rewrite to the text and then skips the message:
  when the rewrite returns, the lists of messages and of user messages and the two id
  counters are unchanged; when it raises, so does the loop.
\<close>

theorem skipped_subtypes:
  assumes "msg_subtype message = Some st"
    and "st = str ''channel_join'' \<or> st = str ''channel_leave'' \<or> st = str ''channel_name''"
  shows "message_step float users added_users added_channels subs channel message
           (zerver_message, zerver_usermessage, message_id, usermessage_id) =
         (case convert_to_zulip_markdown users added_users (msg_text message) of
            Inl e \<Rightarrow> Inl e
          | Inr converted \<Rightarrow> Inr (zerver_message, zerver_usermessage, message_id, usermessage_id))"
proof -
  have "skipped_subtype (msg_subtype message)"
    using assms by (auto simp: skipped_subtype_def)
  then show ?thesis
    by (simp split: sum.split prod.split)
qed

theorem skipped_subtypes_witness:
  "message_step (Inr :: unit \<Rightarrow> error + unit) [bob] [str ''U1'' \<mapsto> 7] [str ''general'' \<mapsto> 3] []
     (str ''general'')
     \<lparr>msg_text = str ''<@U1|bob> has joined the channel'',
      msg_subtype = Some (str ''channel_join''),
      msg_user = Some (str ''U1''), msg_file_user = None, msg_has_image = None,
      msg_ts = ()\<rparr>
     ([], [], 1, 1) = Inr ([], [], 1, 1)"
proof -
  let ?m = "\<lparr>msg_text = str ''<@U1|bob> has joined the channel'',
      msg_subtype = Some (str ''channel_join''),
      msg_user = Some (str ''U1''), msg_file_user = None, msg_has_image = None,
      msg_ts = ()\<rparr>"
  have a: "msg_subtype ?m = Some (str ''channel_join'')" by simp
  have b: "str ''channel_join'' = str ''channel_join'' \<or> str ''channel_join'' = str ''channel_leave''
      \<or> str ''channel_join'' = str ''channel_name''" by simp
  have c: "convert_to_zulip_markdown [bob] [str ''U1'' \<mapsto> 7] (msg_text ?m) =
      Inr (str ''@**Bob Smith**  has joined the channel'', [7], False)"
    by (simp add: eval_simps bob_def)
  show ?thesis
    using skipped_subtypes [OF a b, of "Inr :: unit \<Rightarrow> error + unit" "[bob]" "[str ''U1'' \<mapsto> 7]"
        "[str ''general'' \<mapsto> 3]" "[]" "str ''general''" "[]" "[]" 1 1] c
    by simp
qed


section \<open>Texts without formatting delimiters\<close>

text \<open>A match ends in a suffix of the string in which it starts.\<close>

lemma step_if_rest:
  "st' \<in> set (step_if P st) \<Longrightarrow> suffix (rest st') (rest st)"
  by (cases "rest st") (auto simp: step_if_def advance_def suffix_ConsI split: if_splits)

lemma ms_Rep_mem:
  assumes "st' \<in> set (ms (Rep r lo hi) st)"
  shows "st' = st \<or> (\<exists>st1 \<in> set (ms r st). length (rest st1) < length (rest st) \<and>
           st' \<in> set (ms (Rep r (lo - 1) (dec_hi hi)) st1))"
proof -
  from assms have
    "st' \<in> set (if hi = Some 0 then [st]
      else concat (map (\<lambda>st'. if length (rest st') < length (rest st)
                               then ms (Rep r (lo - 1) (dec_hi hi)) st' else [])
                       (ms r st))
           @ (if lo = 0 then [st] else []))"
    by (subst (asm) ms.simps(11))
  then show ?thesis
    by (auto split: if_splits)
qed

lemma ms_rest:
  "st' \<in> set (ms r st) \<Longrightarrow> suffix (rest st') (rest st)"
proof (induction r st arbitrary: st' rule: ms.induct)
  case (8 a b st)
  from 8(3) obtain st1 where "st1 \<in> set (ms a st)" "st' \<in> set (ms b st1)"
    by auto
  with 8(1,2) show ?case
    by (blast intro: suffix_order.trans)
next
  case (10 n r st)
  then show ?case
    by (auto simp: capture_def)
next
  case (11 r lo hi st)
  show ?case
  proof (cases "hi = Some 0")
    case True
    with 11(3) show ?thesis by (subst (asm) ms.simps(11)) simp
  next
    case False
    from ms_Rep_mem [OF 11(3)] show ?thesis
    proof
      assume "st' = st"
      then show ?thesis by simp
    next
      assume "\<exists>st1 \<in> set (ms r st). length (rest st1) < length (rest st) \<and>
           st' \<in> set (ms (Rep r (lo - 1) (dec_hi hi)) st1)"
      then obtain st1 where s: "st1 \<in> set (ms r st)" "length (rest st1) < length (rest st)"
        "st' \<in> set (ms (Rep r (lo - 1) (dec_hi hi)) st1)" by blast
      have "suffix (rest st1) (rest st)" using 11(1) [OF False s(1)] .
      moreover have "suffix (rest st') (rest st1)" using 11(2) [OF False s(1,2,3)] .
      ultimately show ?thesis by (rule suffix_order.trans [rotated])
    qed
  qed
qed (auto split: if_splits dest: step_if_rest)

text \<open>
  A pattern that asks for a delimiter after its first group has no match in a string
  without that delimiter.
\<close>

lemma ms_lit_absent:
  "cp d \<notin> set (rest st) \<Longrightarrow> ms (Seq (Grp n (Lit d)) X) st = []"
  by (cases "rest st") (auto simp: step_if_def)

lemma ms_seq_lit_absent:
  assumes "cp d \<notin> set (rest st)"
  shows "ms (Seq A (Seq (Grp n (Lit d)) X)) st = []"
proof -
  have "ms (Seq (Grp n (Lit d)) X) st1 = []" if "st1 \<in> set (ms A st)" for st1
  proof -
    have "suffix (rest st1) (rest st)" using that by (rule ms_rest)
    then have "set (rest st1) \<subseteq> set (rest st)" by (rule set_mono_suffix)
    with assms have "cp d \<notin> set (rest st1)" by blast
    then show ?thesis by (rule ms_lit_absent)
  qed
  then show ?thesis by (simp add: concat_eq_Nil_conv del: ms.simps(10))
qed

lemma match_at_absent:
  assumes "cp d \<notin> set s"
  shows "match_at (Seq A (Seq (Grp n (Lit d)) X)) p s = None"
  using ms_seq_lit_absent [of d "\<lparr>pos = p, rest = s, caps = []\<rparr>" A n X] assms
  by (simp add: match_at_def del: ms.simps)

lemma finditer_from_empty:
  "(\<And>p s'. suffix s' s \<Longrightarrow> match_at r p s' = None) \<Longrightarrow> finditer_from r p s = []"
proof (induction s arbitrary: p)
  case Nil
  then show ?case by (subst finditer_from.simps) simp
next
  case (Cons c cs)
  have "match_at r p (c # cs) = None" by (rule Cons.prems) simp
  moreover have "finditer_from r (Suc p) cs = []"
    by (rule Cons.IH) (rule Cons.prems, simp add: suffix_ConsI)
  ultimately show ?case by (subst finditer_from.simps) simp
qed

lemma finditer_absent:
  assumes "cp d \<notin> set s"
  shows "finditer (Seq A (Seq (Grp n (Lit d)) X)) s = []"
  unfolding finditer_def
proof (rule finditer_from_empty)
  fix p s' assume "suffix s' s"
  then have "set s' \<subseteq> set s" by (rule set_mono_suffix)
  with assms have "cp d \<notin> set s'" by blast
  then show "match_at (Seq A (Seq (Grp n (Lit d)) X)) p s' = None" by (rule match_at_absent)
qed

lemma markdown_passes_plain:
  assumes "cp CHR ''~'' \<notin> set text" "cp CHR ''_'' \<notin> set text" "cp CHR ''*'' \<notin> set text"
  shows "markdown_passes text = Inr text"
proof -
  have s: "finditer SLACK_STRIKETHROUGH_REGEX text = []"
    unfolding SLACK_STRIKETHROUGH_REGEX_def seqs.simps using assms(1) by (rule finditer_absent)
  have i: "finditer SLACK_ITALIC_REGEX text = []"
    unfolding SLACK_ITALIC_REGEX_def seqs.simps using assms(2) by (rule finditer_absent)
  have b: "finditer SLACK_BOLD_REGEX text = []"
    unfolding SLACK_BOLD_REGEX_def seqs.simps using assms(3) by (rule finditer_absent)
  show ?thesis
    by (simp add: markdown_passes_def convert_markdown_syntax_def s i b)
qed

section \<open>Texts that the rewrite leaves unchanged\<close>

lemma split_sp_not_Nil: "split_sp s \<noteq> []"
  by (induction s) (auto split: list.splits)

lemma join_split: "join_sp (split_sp s) = s"
proof (induction s)
  case Nil
  then show ?case by simp
next
  case (Cons c cs)
  obtain t ts where ts: "split_sp cs = t # ts"
    using split_sp_not_Nil [of cs] by (cases "split_sp cs") auto
  with Cons show ?case
    by (cases ts) auto
qed

lemma take_eq_prefix: "take (length old) s = old \<longleftrightarrow> prefix old s"
  by (metis append_eq_conv_conj prefix_def take_is_prefix)

lemma replace_absent:
  "\<not> sublist old s \<Longrightarrow> replace_str old new s = s"
proof (induction s)
  case Nil
  then show ?case by (subst replace_str.simps) auto
next
  case (Cons c cs)
  from Cons.prems have "old \<noteq> []" by auto
  moreover from Cons.prems have "\<not> prefix old (c # cs)" "\<not> sublist old cs"
    by (simp_all add: sublist_Cons_right)
  ultimately show ?case
    using Cons.IH by (subst replace_str.simps) (simp add: take_eq_prefix)
qed

lemma tokens_loop_unchanged:
  "\<forall>t\<in>set tokens. convert_token users added_users t = Inr (t, [], False) \<Longrightarrow>
   tokens_loop users added_users tokens (done, ids, link) = Inr (done @ tokens, ids, link)"
  by (induction tokens arbitrary: "done") simp_all

lemma convert_token_plain:
  "re_match SLACK_USERMENTION_REGEX t = None \<Longrightarrow> re_match LINK_REGEX t = None \<Longrightarrow>
   convert_token users added_users t = Inr (t, [], False)"
  by (simp add: convert_token_def)

lemma convert_unchanged:
  assumes "markdown_passes text = Inr text"
    and "\<not> sublist (str ''<!everyone>'') text"
    and "\<forall>t\<in>set (split_sp text).
           re_match SLACK_USERMENTION_REGEX t = None \<and> re_match LINK_REGEX t = None"
  shows "convert_to_zulip_markdown users added_users text = Inr (text, [], False)"
proof -
  have r: "replace_str (str ''<!everyone>'') (str ''@**all**'') text = text"
    using assms(2) by (rule replace_absent)
  have "\<forall>t\<in>set (split_sp text). convert_token users added_users t = Inr (t, [], False)"
    using assms(3) by (simp add: convert_token_plain)
  then have l: "tokens_loop users added_users (split_sp text) ([], [], False) =
      Inr ([] @ split_sp text, [], False)"
    by (rule tokens_loop_unchanged)
  show ?thesis
    using l r by (simp add: convert_to_zulip_markdown_def assms(1) join_split)
qed

text \<open>
  C5. A text without the characters \<open>~\<close>, \<open>_\<close> and \<open>*\<close>, without \<open><!everyone>\<close>, and
  none of whose tokens matches the mention pattern or the link pattern, is returned as
  it is, with no mentioned user and the link flag unset.
\<close>

theorem rewrite_identity:
  assumes "cp CHR ''~'' \<notin> set text" "cp CHR ''_'' \<notin> set text" "cp CHR ''*'' \<notin> set text"
    and "\<not> sublist (str ''<!everyone>'') text"
    and "\<forall>t\<in>set (split_sp text).
           re_match SLACK_USERMENTION_REGEX t = None \<and> re_match LINK_REGEX t = None"
  shows "convert_to_zulip_markdown users added_users text = Inr (text, [], False)"
proof -
  have "markdown_passes text = Inr text"
    using assms(1-3) by (rule markdown_passes_plain)
  then show ?thesis
    using assms(4,5) by (rule convert_unchanged)
qed

theorem rewrite_identity_witness:
  "convert_to_zulip_markdown [bob] [str ''U1'' \<mapsto> 7] (str ''hello, world <3'') =
     Inr (str ''hello, world <3'', [], False)"
proof -
  let ?t = "str ''hello, world <3''"
  have a: "cp CHR ''~'' \<notin> set ?t" "cp CHR ''_'' \<notin> set ?t" "cp CHR ''*'' \<notin> set ?t"
    by simp_all
  have b: "\<not> sublist (str ''<!everyone>'') ?t"
    by (simp add: sublist_Cons_right)
  have c: "\<forall>t\<in>set (split_sp ?t).
           re_match SLACK_USERMENTION_REGEX t = None \<and> re_match LINK_REGEX t = None"
    by (simp add: eval_simps)
  show ?thesis
    by (rule rewrite_identity [OF a b c])
qed


section \<open>The replacement of \<open><!everyone>\<close>\<close>

text \<open>
  \<open>replace_str\<close> on a pattern whose first character does not occur again in it: an
  occurrence of the pattern is replaced wherever it stands, and none is left.
\<close>

lemma replace_str_Nil: "old \<noteq> [] \<Longrightarrow> replace_str old new [] = []"
  by (subst replace_str.simps) simp

lemma replace_str_prefix:
  "old \<noteq> [] \<Longrightarrow> replace_str old new (old @ s) = new @ replace_str old new s"
  by (subst replace_str.simps) simp

lemma replace_str_Cons:
  assumes "old \<noteq> []" "\<not> prefix old (c # cs)"
  shows "replace_str old new (c # cs) = c # replace_str old new cs"
proof -
  have "take (length old) (c # cs) \<noteq> old"
    using assms(2) take_eq_prefix by blast
  then show ?thesis
    using assms(1) by (subst replace_str.simps) simp
qed

lemma border_free:
  assumes "h \<notin> set t" "a \<noteq> []" "prefix (h # t) (a @ (h # t) @ b)"
  shows "prefix (h # t) a"
proof -
  from assms(3) have "prefix (h # t) a \<or> (\<exists>us. h # t = a @ us \<and> prefix us ((h # t) @ b))"
    by (simp only: prefix_append)
  then consider "prefix (h # t) a"
    | us where "h # t = a @ us" "prefix us ((h # t) @ b)"
    by blast
  then show ?thesis
  proof cases
    case 1
    then show ?thesis .
  next
    case 2
    show ?thesis
    proof (cases us)
      case Nil
      with 2(1) show ?thesis by simp
    next
      case (Cons u us')
      with 2(2) have "u = h" by simp
      moreover from 2(1) assms(2) Cons have "u \<in> set t"
        by (cases a) auto
      ultimately show ?thesis using assms(1) by simp
    qed
  qed
qed

lemma replace_occurrence:
  assumes "h \<notin> set t"
  shows "replace_str (h # t) new (a @ (h # t) @ b) =
         replace_str (h # t) new a @ new @ replace_str (h # t) new b"
proof (induction a rule: length_induct)
  case (1 a)
  have ne: "h # t \<noteq> []" by simp
  show ?case
  proof (cases "a = []")
    case True
    show ?thesis
      unfolding True append_Nil replace_str_prefix [OF ne] replace_str_Nil [OF ne] ..
  next
    case False
    show ?thesis
    proof (cases "prefix (h # t) a")
      case True
      then obtain a' where a: "a = (h # t) @ a'" by (auto simp: prefix_def)
      have "length a' < length a" using a by simp
      with 1 have ih: "replace_str (h # t) new (a' @ (h # t) @ b) =
         replace_str (h # t) new a' @ new @ replace_str (h # t) new b" by blast
      show ?thesis
        unfolding a append_assoc replace_str_prefix [OF ne] ih ..
    next
      case np: False
      then have np': "\<not> prefix (h # t) (a @ (h # t) @ b)"
        using border_free [OF assms False] by blast
      obtain c cs where a: "a = c # cs" using False by (cases a) auto
      have "length cs < length a" using a by simp
      with 1 have ih: "replace_str (h # t) new (cs @ (h # t) @ b) =
         replace_str (h # t) new cs @ new @ replace_str (h # t) new b" by blast
      have l: "replace_str (h # t) new ((c # cs) @ (h # t) @ b) =
          c # replace_str (h # t) new (cs @ (h # t) @ b)"
        unfolding append_Cons using np' [unfolded a append_Cons] by (rule replace_str_Cons [OF ne])
      have r: "replace_str (h # t) new (c # cs) = c # replace_str (h # t) new cs"
        using np [unfolded a] by (rule replace_str_Cons [OF ne])
      show ?thesis
        using l r ih by (simp add: a)
    qed
  qed
qed

lemma replace_prefix_back:
  assumes "new \<noteq> []" "hd new \<notin> set w" "h \<notin> set w"
    and "prefix w (replace_str (h # t) new x)"
  shows "prefix w x"
  using assms(2-4)
proof (induction w arbitrary: x)
  case Nil
  then show ?case by simp
next
  case (Cons a w)
  have ne: "h # t \<noteq> []" by simp
  show ?case
  proof (cases x)
    case Nil
    with Cons.prems(3) show ?thesis by (simp add: replace_str_Nil [OF ne])
  next
    case (Cons c cs)
    show ?thesis
    proof (cases "prefix (h # t) x")
      case True
      then obtain x' where x: "x = (h # t) @ x'" by (auto simp: prefix_def)
      obtain n new' where new: "new = n # new'" using assms(1) by (cases new) auto
      from Cons.prems(3) have "prefix (a # w) (n # new' @ replace_str (h # t) new x')"
        unfolding x replace_str_prefix [OF ne] unfolding new by simp
      then have "a = n" by simp
      with Cons.prems(1) new show ?thesis by simp
    next
      case False
      then have r: "replace_str (h # t) new x = c # replace_str (h # t) new cs"
        unfolding Cons by (rule replace_str_Cons [OF ne])
      from Cons.prems(3) have "prefix (a # w) (c # replace_str (h # t) new cs)"
        unfolding r .
      then have ac: "a = c" and p: "prefix w (replace_str (h # t) new cs)"
        by simp_all
      have "hd new \<notin> set w" "h \<notin> set w" using Cons.prems(1,2) by simp_all
      then have "prefix w cs"
        using p by (rule Cons.IH)
      with ac show ?thesis by (simp add: Cons)
    qed
  qed
qed

lemma not_sublist_append:
  assumes "h \<notin> set new" "\<not> sublist (h # t) r"
  shows "\<not> sublist (h # t) (new @ r)"
proof
  assume "sublist (h # t) (new @ r)"
  then have "sublist (h # t) new \<or> sublist (h # t) r \<or>
      (\<exists>x1 x2. h # t = x1 @ x2 \<and> suffix x1 new \<and> prefix x2 r)"
    by (simp only: sublist_append)
  then consider (a) "sublist (h # t) new" | (b) "sublist (h # t) r"
    | (c) x1 x2 where "h # t = x1 @ x2" "suffix x1 new" "prefix x2 r"
    by blast
  then show False
  proof cases
    case a
    then have "set (h # t) \<subseteq> set new" by (rule set_mono_sublist)
    with assms(1) show False by simp
  next
    case b
    with assms(2) show False by simp
  next
    case c
    show False
    proof (cases x1)
      case Nil
      with c(1) have "x2 = h # t" by simp
      with c(3) have "sublist (h # t) r" by (simp add: prefix_imp_sublist)
      with assms(2) show False by simp
    next
      case (Cons y ys)
      with c(1) have "h \<in> set x1" by simp
      moreover have "set x1 \<subseteq> set new" using c(2) by (rule set_mono_suffix)
      ultimately show False using assms(1) by blast
    qed
  qed
qed

lemma replace_no_occurrence:
  assumes "h \<notin> set t" "h \<notin> set new" "new \<noteq> []" "hd new \<notin> set t"
  shows "\<not> sublist (h # t) (replace_str (h # t) new s)"
proof (induction s rule: length_induct)
  case (1 s)
  have ne: "h # t \<noteq> []" by simp
  show ?case
  proof (cases s)
    case Nil
    then show ?thesis by (simp add: replace_str_Nil [OF ne])
  next
    case (Cons c cs)
    show ?thesis
    proof (cases "prefix (h # t) s")
      case True
      then obtain s' where s: "s = (h # t) @ s'" unfolding prefix_def by blast
      have "length s' < length s" unfolding s by simp
      with 1 have ih: "\<not> sublist (h # t) (replace_str (h # t) new s')" by blast
      have "\<not> sublist (h # t) (new @ replace_str (h # t) new s')"
        using assms(2) ih by (rule not_sublist_append)
      then show ?thesis unfolding s replace_str_prefix [OF ne] .
    next
      case False
      then have r: "replace_str (h # t) new s = c # replace_str (h # t) new cs"
        unfolding Cons by (rule replace_str_Cons [OF ne])
      have "length cs < length s" unfolding Cons by simp
      with 1 have ih: "\<not> sublist (h # t) (replace_str (h # t) new cs)" by blast
      have "\<not> prefix (h # t) (c # replace_str (h # t) new cs)"
      proof
        assume p: "prefix (h # t) (c # replace_str (h # t) new cs)"
        have "h = c \<and> prefix t (replace_str (h # t) new cs)"
          using p unfolding Cons_prefix_Cons .
        then have ch: "h = c" and pt: "prefix t (replace_str (h # t) new cs)"
          by blast+
        have "prefix t cs"
          using assms(3,4,1) pt by (rule replace_prefix_back)
        then have "prefix (h # t) (c # cs)" unfolding Cons_prefix_Cons using ch by blast
        with False show False unfolding Cons by blast
      qed
      with ih show ?thesis unfolding r sublist_Cons_right by blast
    qed
  qed
qed

lemma everyone_chars:
  "cp CHR ''<'' \<notin> set (str ''!everyone>'')" "cp CHR ''<'' \<notin> set (str ''@**all**'')"
  "str ''@**all**'' \<noteq> []" "hd (str ''@**all**'') \<notin> set (str ''!everyone>'')"
  "str ''<!everyone>'' = cp CHR ''<'' # str ''!everyone>''"
  by simp_all

text \<open>
  C10. The tokens are those of the text in which \<open><!everyone>\<close> has been replaced (the
  text as the three passes leave it); the replacement acts on substrings: an occurrence
  between any two strings \<open>a\<close> and \<open>b\<close> is replaced, whether or not white space surrounds
  it, and the replaced text has no occurrence left.
\<close>

theorem mention_everyone:
  "convert_to_zulip_markdown users added_users text =
     (case markdown_passes text of
        Inl e \<Rightarrow> Inl e
      | Inr text3 \<Rightarrow>
          (case tokens_loop users added_users
                  (split_sp (replace_str (str ''<!everyone>'') (str ''@**all**'') text3))
                  ([], [], False) of
             Inl e \<Rightarrow> Inl e
           | Inr (tokens', ids, link) \<Rightarrow>
               Inr (join_sp tokens', ids, link)))
   \<and> replace_str (str ''<!everyone>'') (str ''@**all**'') (a @ str ''<!everyone>'' @ b) =
       replace_str (str ''<!everyone>'') (str ''@**all**'') a @ str ''@**all**'' @
       replace_str (str ''<!everyone>'') (str ''@**all**'') b
   \<and> \<not> sublist (str ''<!everyone>'') (replace_str (str ''<!everyone>'') (str ''@**all**'') s)
   \<and> convert_to_zulip_markdown users added_users (str ''hi,<!everyone>! x<!everyone>'') =
       Inr (str ''hi,@**all**! x@**all**'', [], False)"
proof (intro conjI)
  show "convert_to_zulip_markdown users added_users text =
     (case markdown_passes text of
        Inl e \<Rightarrow> Inl e
      | Inr text3 \<Rightarrow>
          (case tokens_loop users added_users
                  (split_sp (replace_str (str ''<!everyone>'') (str ''@**all**'') text3))
                  ([], [], False) of
             Inl e \<Rightarrow> Inl e
           | Inr (tokens', ids, link) \<Rightarrow>
               Inr (join_sp tokens', ids, link)))"
    by (simp add: convert_to_zulip_markdown_def Let_def split: sum.split)
  show "replace_str (str ''<!everyone>'') (str ''@**all**'') (a @ str ''<!everyone>'' @ b) =
       replace_str (str ''<!everyone>'') (str ''@**all**'') a @ str ''@**all**'' @
       replace_str (str ''<!everyone>'') (str ''@**all**'') b"
    unfolding everyone_chars(5) by (rule replace_occurrence [OF everyone_chars(1)])
  show "\<not> sublist (str ''<!everyone>'') (replace_str (str ''<!everyone>'') (str ''@**all**'') s)"
    unfolding everyone_chars(5)
    by (rule replace_no_occurrence [OF everyone_chars(1,2,3,4)])
  show "convert_to_zulip_markdown users added_users (str ''hi,<!everyone>! x<!everyone>'') =
       Inr (str ''hi,@**all**! x@**all**'', [], False)"
    by (simp add: eval_simps)
qed


section \<open>A second run of the rewrite\<close>

text \<open>
  The output of the rewrite, for a text without delimiter characters and without
  mentions: its asterisks are those of \<open>@**all**\<close>, each of which follows \<open>@\<close>, \<open>*\<close> or
  \<open>l\<close>, so that the bold pattern has no match in it.
\<close>

lemma guarded_mono: "guarded False s \<Longrightarrow> guarded b s"
  by (cases s) (auto split: if_splits)

lemma guarded_append:
  "guarded b (x @ y) = (guarded b x \<and> guarded (if x = [] then b else \<not> boundary (last x)) y)"
  by (induction x arbitrary: b) auto

lemma guarded_filter:
  assumes "\<And>c. \<not> P c \<Longrightarrow> boundary c"
  shows "guarded b s \<Longrightarrow> guarded b (filter P s)"
proof (induction s arbitrary: b)
  case Nil
  then show ?case by simp
next
  case (Cons c s)
  show ?case
  proof (cases "P c")
    case True
    with Cons show ?thesis by simp
  next
    case False
    then have "boundary c" by (rule assms)
    with Cons.prems have "guarded False s" by simp
    then have "guarded False (filter P s)" by (rule Cons.IH)
    then have "guarded b (filter P s)" by (rule guarded_mono)
    with False show ?thesis by simp
  qed
qed

lemma guarded_join:
  "ts \<noteq> [] \<Longrightarrow> guarded False (join_sp ts) = (\<forall>t\<in>set ts. guarded False t)"
proof (induction ts rule: join_sp.induct)
  case 1
  then show ?case by simp
next
  case (2 t)
  then show ?case by simp
next
  case (3 t v va)
  have b: "boundary (cp CHR '' '')" by (simp add: boundary_def)
  have "guarded False (join_sp (t # v # va)) =
      (guarded False t \<and> guarded False (join_sp (v # va)))"
    using b by (simp add: guarded_append)
  with 3 show ?case by simp
qed

lemma guarded_split:
  "guarded False s = (\<forall>t\<in>set (split_sp s). guarded False t)"
  using guarded_join [OF split_sp_not_Nil, of s] by (simp add: join_split)

lemma replace_single_empty: "replace_str [c] [] s = filter (\<lambda>x. x \<noteq> c) s"
proof (induction s)
  case Nil
  show ?case by (simp add: replace_str_Nil)
next
  case (Cons a s)
  show ?case
  proof (cases "a = c")
    case True
    have "replace_str [c] [] ([c] @ s) = [] @ replace_str [c] [] s"
      by (rule replace_str_prefix) simp
    with True Cons show ?thesis by simp
  next
    case False
    then have "replace_str [c] [] (a # s) = a # replace_str [c] [] s"
      by (intro replace_str_Cons) simp_all
    with False Cons show ?thesis by simp
  qed
qed

lemma set_replace:
  assumes "old \<noteq> []"
  shows "set (replace_str old new s) \<subseteq> set s \<union> set new"
proof (induction s rule: length_induct)
  case (1 s)
  show ?case
  proof (cases s)
    case Nil
    then show ?thesis by (simp add: replace_str_Nil [OF assms])
  next
    case (Cons c cs)
    show ?thesis
    proof (cases "prefix old s")
      case True
      then obtain s' where s: "s = old @ s'" unfolding prefix_def by blast
      have "length s' < length s" unfolding s using assms by simp
      with 1 have "set (replace_str old new s') \<subseteq> set s' \<union> set new" by blast
      then show ?thesis unfolding s replace_str_prefix [OF assms] by auto
    next
      case False
      then have r: "replace_str old new s = c # replace_str old new cs"
        unfolding Cons by (rule replace_str_Cons [OF assms])
      have "length cs < length s" unfolding Cons by simp
      with 1 have "set (replace_str old new cs) \<subseteq> set cs \<union> set new" by blast
      then show ?thesis unfolding r unfolding Cons by auto
    qed
  qed
qed

lemma guarded_all: "guarded b (str ''@**all**'' @ r) = guarded True r"
  by (simp add: boundary_def)

lemma guarded_replace:
  assumes "cp CHR ''*'' \<notin> set s"
  shows "guarded b (replace_str (str ''<!everyone>'') (str ''@**all**'') s)"
  using assms
proof (induction s arbitrary: b rule: length_induct)
  case (1 s)
  have ne: "str ''<!everyone>'' \<noteq> []" by simp
  show ?case
  proof (cases s)
    case Nil
    show ?thesis unfolding Nil replace_str_Nil [OF ne] by simp
  next
    case (Cons c cs)
    show ?thesis
    proof (cases "prefix (str ''<!everyone>'') s")
      case True
      then obtain s' where s: "s = str ''<!everyone>'' @ s'" unfolding prefix_def by blast
      have "length s' < length s" unfolding s by simp
      moreover have "cp CHR ''*'' \<notin> set s'" using "1.prems" unfolding s by simp
      ultimately have "guarded True (replace_str (str ''<!everyone>'') (str ''@**all**'') s')"
        using "1.IH" by blast
      then show ?thesis unfolding s replace_str_prefix [OF ne] guarded_all .
    next
      case False
      then have r: "replace_str (str ''<!everyone>'') (str ''@**all**'') s =
          c # replace_str (str ''<!everyone>'') (str ''@**all**'') cs"
        unfolding Cons by (rule replace_str_Cons [OF ne])
      have "length cs < length s" unfolding Cons by simp
      moreover have c: "c \<noteq> cp CHR ''*''" "cp CHR ''*'' \<notin> set cs"
        using "1.prems" unfolding Cons by auto
      ultimately have "guarded (\<not> boundary c)
          (replace_str (str ''<!everyone>'') (str ''@**all**'') cs)"
        using "1.IH" by blast
      then show ?thesis unfolding r using c(1) by simp
    qed
  qed
qed

lemma ms_lit_head:
  "rest st = [] \<or> hd (rest st) \<noteq> cp d \<Longrightarrow> ms (Seq (Grp n (Lit d)) X) st = []"
  by (cases "rest st") (auto simp: step_if_def)

lemma guarded_head: "guarded False s \<Longrightarrow> s = [] \<or> hd s \<noteq> cp CHR ''*''"
  by (cases s) (auto split: if_splits)

lemma start_after_cases:
  assumes "st1 \<in> set (ms (Grp n start_after) st)"
  shows "(pos st = 0 \<and> rest st1 = rest st) \<or> (\<exists>c. rest st = c # rest st1 \<and> boundary c)"
proof (cases "rest st")
  case Nil
  with assms show ?thesis
    by (auto simp: start_after_def step_if_def capture_def split: if_splits)
next
  case (Cons c r)
  with assms show ?thesis
    by (auto simp: start_after_def step_if_def capture_def advance_def boundary_def
        split: if_splits)
qed

lemma bold_at:
  assumes "guarded b s" "p = 0 \<longrightarrow> \<not> b"
  shows "match_at SLACK_BOLD_REGEX p s = None"
proof -
  let ?st = "\<lparr>pos = p, rest = s, caps = []\<rparr>"
  let ?X = "Seq (Grp 3 (star (Cls [Rg CHR '' '' CHR ''~'', Cp 8212])))
      (Seq (Grp 4 (plus (Cls [Rg CHR ''!'' CHR ''}'']))) (Seq (Grp 5 (Lit CHR ''*'')) (Grp 6 ends_with)))"
  have r: "SLACK_BOLD_REGEX = Seq (Grp 1 start_after) (Seq (Grp 2 (Lit CHR ''*'')) ?X)"
    by (simp add: SLACK_BOLD_REGEX_def)
  have "ms (Seq (Grp 2 (Lit CHR ''*'')) ?X) st1 = []"
    if "st1 \<in> set (ms (Grp 1 start_after) ?st)" for st1
  proof -
    from start_after_cases [OF that]
    have "rest st1 = [] \<or> hd (rest st1) \<noteq> cp CHR ''*''"
    proof
      assume "pos ?st = 0 \<and> rest st1 = rest ?st"
      then have "p = 0" "rest st1 = s" by simp_all
      with assms have "guarded False (rest st1)" by simp
      then show ?thesis by (rule guarded_head)
    next
      assume "\<exists>c. rest ?st = c # rest st1 \<and> boundary c"
      then obtain c where "s = c # rest st1" "boundary c" by auto
      with assms(1) have "guarded False (rest st1)" by (cases s) auto
      then show ?thesis by (rule guarded_head)
    qed
    then show ?thesis by (rule ms_lit_head)
  qed
  then have "ms SLACK_BOLD_REGEX ?st = []"
    unfolding r by (simp add: concat_eq_Nil_conv del: ms.simps(10))
  then show ?thesis by (simp add: match_at_def)
qed

lemma bold_finditer_from:
  "guarded b s \<Longrightarrow> p = 0 \<longrightarrow> \<not> b \<Longrightarrow> finditer_from SLACK_BOLD_REGEX p s = []"
proof (induction s arbitrary: b p)
  case Nil
  then have "match_at SLACK_BOLD_REGEX p [] = None" by (rule bold_at)
  then show ?case by (subst finditer_from.simps) simp
next
  case (Cons c cs)
  from Cons.prems have m: "match_at SLACK_BOLD_REGEX p (c # cs) = None" by (rule bold_at)
  from Cons.prems(1) have "guarded (\<not> boundary c) cs" by simp
  then have "finditer_from SLACK_BOLD_REGEX (Suc p) cs = []"
    by (rule Cons.IH) simp
  with m show ?case by (subst finditer_from.simps) simp
qed

lemma bold_guarded: "guarded False s \<Longrightarrow> finditer SLACK_BOLD_REGEX s = []"
  using bold_finditer_from [of False s 0] by (simp add: finditer_def)

lemma mention_needs_lt:
  "t = [] \<or> hd t \<noteq> cp CHR ''<'' \<Longrightarrow> re_match SLACK_USERMENTION_REGEX t = None"
  by (cases t) (auto simp: re_match_def match_at_def SLACK_USERMENTION_REGEX_def lit_def step_if_def)

lemma link_needs_lt:
  "t = [] \<or> hd t \<noteq> cp CHR ''<'' \<Longrightarrow> re_match LINK_REGEX t = None"
  by (cases t) (auto simp: re_match_def match_at_def LINK_REGEX_def step_if_def)

lemma split_no_space: "t \<in> set (split_sp s) \<Longrightarrow> cp CHR '' '' \<notin> set t"
proof (induction s arbitrary: t)
  case Nil
  then show ?case by simp
next
  case (Cons c cs)
  obtain t0 ts where ts: "split_sp cs = t0 # ts"
    using split_sp_not_Nil [of cs] by (cases "split_sp cs") auto
  show ?case
  proof (cases "c = cp CHR '' ''")
    case True
    with Cons show ?thesis by auto
  next
    case False
    with Cons.prems ts have "t = c # t0 \<or> t \<in> set ts" by auto
    then show ?thesis
    proof
      assume "t = c # t0"
      moreover have "cp CHR '' '' \<notin> set t0" by (rule Cons.IH) (simp add: ts)
      ultimately show ?thesis using False by auto
    next
      assume "t \<in> set ts"
      then show ?thesis by (intro Cons.IH) (simp add: ts)
    qed
  qed
qed

lemma split_plain: "cp CHR '' '' \<notin> set t \<Longrightarrow> split_sp t = [t]"
  by (induction t) auto

lemma split_append_space:
  "cp CHR '' '' \<notin> set t \<Longrightarrow> split_sp (t @ cp CHR '' '' # r) = t # split_sp r"
  by (induction t) auto

lemma split_join:
  "ts \<noteq> [] \<Longrightarrow> \<forall>t\<in>set ts. cp CHR '' '' \<notin> set t \<Longrightarrow> split_sp (join_sp ts) = ts"
proof (induction ts rule: join_sp.induct)
  case 1
  then show ?case by simp
next
  case (2 t)
  then show ?case by (simp add: split_plain)
next
  case (3 t v va)
  then have "split_sp (join_sp (v # va)) = v # va" by simp
  moreover have "cp CHR '' '' \<notin> set t" using 3(3) by simp
  ultimately show ?case
    using split_append_space [of t "join_sp (v # va)"] by simp
qed

lemma mem_sublist_join: "t \<in> set ts \<Longrightarrow> sublist t (join_sp ts)"
proof (induction ts rule: join_sp.induct)
  case 1
  then show ?case by simp
next
  case (2 u)
  then show ?case by simp
next
  case (3 u v va)
  show ?case
  proof (cases "t = u")
    case True
    then show ?thesis by simp
  next
    case False
    with 3 have "sublist t (join_sp (v # va))" by simp
    moreover have "sublist (join_sp (v # va)) (join_sp (u # v # va))"
      by (simp add: sublist_Cons_right sublist_append)
    ultimately show ?thesis by (rule sublist_order.order.trans)
  qed
qed

lemma split_sublist: "t \<in> set (split_sp s) \<Longrightarrow> sublist t s"
  using mem_sublist_join [of t "split_sp s"] by (simp add: join_split)

lemma sublist_join:
  assumes "old \<noteq> []" "cp CHR '' '' \<notin> set old"
  shows "sublist old (join_sp ts) \<Longrightarrow> \<exists>t\<in>set ts. sublist old t"
proof (induction ts rule: join_sp.induct)
  case 1
  with assms(1) show ?case by simp
next
  case (2 t)
  then show ?case by simp
next
  case (3 t v va)
  let ?r = "join_sp (v # va)"
  have np: "\<not> prefix x (cp CHR '' '' # ?r)" if "x \<noteq> []" "set x \<subseteq> set old" for x
  proof
    assume "prefix x (cp CHR '' '' # ?r)"
    with that(1) have "hd x = cp CHR '' ''" by (cases x) auto
    with that have "cp CHR '' '' \<in> set old" by (cases x) auto
    with assms(2) show False by simp
  qed
  from 3(2) have "sublist old (t @ cp CHR '' '' # ?r)" by simp
  then have "sublist old t \<or> sublist old (cp CHR '' '' # ?r) \<or>
      (\<exists>x1 x2. old = x1 @ x2 \<and> suffix x1 t \<and> prefix x2 (cp CHR '' '' # ?r))"
    by (simp only: sublist_append)
  then consider (a) "sublist old t" | (b) "sublist old (cp CHR '' '' # ?r)"
    | (c) x1 x2 where "old = x1 @ x2" "suffix x1 t" "prefix x2 (cp CHR '' '' # ?r)"
    by blast
  then show ?case
  proof cases
    case a
    then show ?thesis by simp
  next
    case b
    then have "prefix old (cp CHR '' '' # ?r) \<or> sublist old ?r"
      by (simp only: sublist_Cons_right)
    with np [OF assms(1)] have "sublist old ?r" by blast
    with 3(1) show ?thesis by auto
  next
    case c
    show ?thesis
    proof (cases "x2 = []")
      case True
      with c have "suffix old t" by simp
      then have "sublist old t" by (rule suffix_imp_sublist)
      then show ?thesis by simp
    next
      case False
      moreover have "set x2 \<subseteq> set old" using c(1) by auto
      ultimately have "\<not> prefix x2 (cp CHR '' '' # ?r)" by (rule np)
      with c(3) show ?thesis by simp
    qed
  qed
qed

lemma set_join: "x \<in> set (join_sp ts) \<Longrightarrow> x = cp CHR '' '' \<or> (\<exists>t\<in>set ts. x \<in> set t)"
  by (induction ts rule: join_sp.induct) auto

lemma strip_filter:
  "replace_str (str ''>'') [] (replace_str (str ''<'') [] t) =
     filter (\<lambda>x. x \<noteq> cp CHR ''>'') (filter (\<lambda>x. x \<noteq> cp CHR ''<'') t)"
proof -
  have "str ''>'' = [cp CHR ''>'']" "str ''<'' = [cp CHR ''<'']" by simp_all
  then show ?thesis by (simp only: replace_single_empty)
qed

lemma strip_link_set: "set (strip_link t) \<subseteq> set t"
  unfolding strip_link_def strip_filter by auto

lemma strip_link_no_lt: "re_match LINK_REGEX t \<noteq> None \<Longrightarrow> cp CHR ''<'' \<notin> set (strip_link t)"
  unfolding strip_link_def strip_filter by auto

lemma strip_link_guarded:
  assumes "guarded False t"
  shows "guarded False (strip_link t)"
proof -
  have lt: "boundary c" if "\<not> c \<noteq> cp CHR ''<''" for c
    using that by (simp add: boundary_def)
  have gt: "boundary c" if "\<not> c \<noteq> cp CHR ''>''" for c
    using that by (simp add: boundary_def)
  have "guarded False (filter (\<lambda>x. x \<noteq> cp CHR ''<'') t)"
    using lt assms by (rule guarded_filter)
  with gt have "guarded False
      (filter (\<lambda>x. x \<noteq> cp CHR ''>'') (filter (\<lambda>x. x \<noteq> cp CHR ''<'') t))"
    by (rule guarded_filter)
  with assms show ?thesis
    unfolding strip_link_def strip_filter by simp
qed

lemma convert_token_no_mention:
  "re_match SLACK_USERMENTION_REGEX t = None \<Longrightarrow>
   convert_token users added_users t = Inr (strip_link t, [], re_match LINK_REGEX t \<noteq> None)"
  by (simp add: convert_token_def strip_link_def)

lemma tokens_loop_map:
  "\<forall>t\<in>set tokens. convert_token users added_users t = Inr (f t, [], g t) \<Longrightarrow>
   tokens_loop users added_users tokens (done, ids, link) =
     Inr (done @ map f tokens, ids, link \<or> (\<exists>t\<in>set tokens. g t))"
  by (induction tokens arbitrary: "done" link) auto

lemma no_lt_no_match:
  assumes "cp CHR ''<'' \<notin> set t"
  shows "re_match SLACK_USERMENTION_REGEX t = None \<and> re_match LINK_REGEX t = None"
proof -
  have "t = [] \<or> hd t \<noteq> cp CHR ''<''" using assms by (cases t) auto
  then show ?thesis by (simp add: mention_needs_lt link_needs_lt)
qed

text \<open>
  C3, as the claim states it. The text \<open><@U1> <@U1>\<close> has no delimiter character; with
  the name \<open>Bob Jr.\<close> in the directory its rewrite is \<open>@**Bob Jr.**  @**Bob Jr.** \<close>,
  in which the bold pattern matches from \<open>.*\<close> to the last asterisk but one, and a second
  run changes it. Likewise \<open> *<!everyone> \<close>, in which none of the three patterns has a
  match: its rewrite is \<open> *@**all** \<close>, which a second run changes.
\<close>

theorem rewrite_idempotent_counterexample:
  "convert_to_zulip_markdown
     [\<lparr>u_id = str ''U1'', u_name = str ''bob'', u_real_name = str ''Bob Jr.'', u_deleted = False\<rparr>]
     [str ''U1'' \<mapsto> 7] (str ''<@U1> <@U1>'') =
     Inr (str ''@**Bob Jr.**  @**Bob Jr.** '', [7, 7], False)
   \<and> convert_to_zulip_markdown
     [\<lparr>u_id = str ''U1'', u_name = str ''bob'', u_real_name = str ''Bob Jr.'', u_deleted = False\<rparr>]
     [str ''U1'' \<mapsto> 7] (str ''@**Bob Jr.**  @**Bob Jr.** '') =
     Inr (str ''@**Bob Jr.***  @**Bob Jr.*** '', [], False)
   \<and> finditer SLACK_STRIKETHROUGH_REGEX (str '' *<!everyone> '') = []
   \<and> finditer SLACK_ITALIC_REGEX (str '' *<!everyone> '') = []
   \<and> finditer SLACK_BOLD_REGEX (str '' *<!everyone> '') = []
   \<and> convert_to_zulip_markdown [] Map.empty (str '' *<!everyone> '') =
     Inr (str '' *@**all** '', [], False)
   \<and> convert_to_zulip_markdown [] Map.empty (str '' *@**all** '') =
     Inr (str '' **@**all*** '', [], False)"
  by (simp add: eval_simps)

text \<open>
  C3, amended. For a text without the characters \<open>~\<close>, \<open>_\<close> and \<open>*\<close>, none of whose
  tokens (after the replacement of \<open><!everyone>\<close>) matches the mention pattern, the
  rewrite returns a text \<open>u\<close> and no mentioned user, and the rewrite of \<open>u\<close> returns \<open>u\<close>.
\<close>

theorem rewrite_idempotent:
  assumes "cp CHR ''~'' \<notin> set text" "cp CHR ''_'' \<notin> set text" "cp CHR ''*'' \<notin> set text"
    and "\<forall>t\<in>set (split_sp (replace_str (str ''<!everyone>'') (str ''@**all**'') text)).
           re_match SLACK_USERMENTION_REGEX t = None"
  shows "\<exists>u link. convert_to_zulip_markdown users added_users text = Inr (u, [], link)
           \<and> convert_to_zulip_markdown users added_users u = Inr (u, [], False)"
proof -
  define t4 where "t4 = replace_str (str ''<!everyone>'') (str ''@**all**'') text"
  define toks where "toks = split_sp t4"
  define u where "u = join_sp (map strip_link toks)"
  define link where "link = (\<exists>t\<in>set toks. re_match LINK_REGEX t \<noteq> None)"
  have nm: "\<forall>t\<in>set toks. re_match SLACK_USERMENTION_REGEX t = None"
    using assms(4) unfolding toks_def t4_def .
  have toks_ne: "map strip_link toks \<noteq> []"
    unfolding toks_def by (simp add: split_sp_not_Nil)

  \<comment> \<open>the first run\<close>
  have p: "markdown_passes text = Inr text"
    using assms(1-3) by (rule markdown_passes_plain)
  have "\<forall>t\<in>set toks. convert_token users added_users t =
      Inr (strip_link t, [], re_match LINK_REGEX t \<noteq> None)"
    using nm by (simp add: convert_token_no_mention)
  then have "tokens_loop users added_users toks ([], [], False) =
      Inr ([] @ map strip_link toks, [], False \<or> (\<exists>t\<in>set toks. re_match LINK_REGEX t \<noteq> None))"
    by (rule tokens_loop_map)
  then have loop: "tokens_loop users added_users toks ([], [], False) =
      Inr (map strip_link toks, [], link)"
    unfolding link_def by simp
  have first: "convert_to_zulip_markdown users added_users text = Inr (u, [], link)"
    using loop [unfolded toks_def t4_def]
    unfolding convert_to_zulip_markdown_def p u_def toks_def t4_def
    by (simp add: Let_def)

  \<comment> \<open>the characters of the output\<close>
  have tok_sub: "sublist t t4" if "t \<in> set toks" for t
    using that unfolding toks_def by (rule split_sublist)
  have chars: "x = cp CHR '' '' \<or> x \<in> set text \<or> x \<in> set (str ''@**all**'')"
    if "x \<in> set u" for x
  proof -
    from that set_join [of x "map strip_link toks"]
    consider "x = cp CHR '' ''" | t where "t \<in> set toks" "x \<in> set (strip_link t)"
      unfolding u_def by auto
    then show ?thesis
    proof cases
      case 1
      then show ?thesis by simp
    next
      case 2
      then have "x \<in> set t" using strip_link_set by blast
      moreover have "set t \<subseteq> set t4" using tok_sub [OF 2(1)] by (rule set_mono_sublist)
      moreover have "set t4 \<subseteq> set text \<union> set (str ''@**all**'')"
        unfolding t4_def by (rule set_replace) simp
      ultimately show ?thesis by blast
    qed
  qed
  have tilde: "cp CHR ''~'' \<notin> set u"
    using chars [of "cp CHR ''~''"] assms(1) by auto
  have under: "cp CHR ''_'' \<notin> set u"
    using chars [of "cp CHR ''_''"] assms(2) by auto

  \<comment> \<open>no pattern matches in the output\<close>
  have "guarded False t4"
    unfolding t4_def using assms(3) by (rule guarded_replace)
  then have "\<forall>t\<in>set toks. guarded False t"
    unfolding toks_def using guarded_split by blast
  then have "\<forall>t\<in>set (map strip_link toks). guarded False t"
    by (simp add: strip_link_guarded)
  then have g: "guarded False u"
    unfolding u_def using guarded_join [OF toks_ne] by blast
  have s: "finditer SLACK_STRIKETHROUGH_REGEX u = []"
    unfolding SLACK_STRIKETHROUGH_REGEX_def seqs.simps using tilde by (rule finditer_absent)
  have i: "finditer SLACK_ITALIC_REGEX u = []"
    unfolding SLACK_ITALIC_REGEX_def seqs.simps using under by (rule finditer_absent)
  have b: "finditer SLACK_BOLD_REGEX u = []"
    using g by (rule bold_guarded)
  have passes: "markdown_passes u = Inr u"
    by (simp add: markdown_passes_def convert_markdown_syntax_def s i b)

  \<comment> \<open>no \<open><!everyone>\<close> in the output\<close>
  have no_ev4: "\<not> sublist (str ''<!everyone>'') t4"
    unfolding t4_def everyone_chars(5)
    by (rule replace_no_occurrence [OF everyone_chars(1,2,3,4)])
  have no_ev: "\<not> sublist (str ''<!everyone>'') u"
  proof
    assume "sublist (str ''<!everyone>'') u"
    then have "\<exists>t\<in>set (map strip_link toks). sublist (str ''<!everyone>'') t"
      unfolding u_def by (intro sublist_join) simp_all
    then obtain t where t: "t \<in> set toks" "sublist (str ''<!everyone>'') (strip_link t)"
      by auto
    show False
    proof (cases "re_match LINK_REGEX t = None")
      case True
      then have "strip_link t = t" by (simp add: strip_link_def)
      with t(2) tok_sub [OF t(1)] have "sublist (str ''<!everyone>'') t4"
        by (auto intro: sublist_order.order.trans)
      with no_ev4 show False by simp
    next
      case False
      then have "cp CHR ''<'' \<notin> set (strip_link t)" by (rule strip_link_no_lt)
      moreover have "set (str ''<!everyone>'') \<subseteq> set (strip_link t)"
        using t(2) by (rule set_mono_sublist)
      ultimately show False by simp
    qed
  qed

  \<comment> \<open>no mention and no link among the tokens of the output\<close>
  have "\<forall>t\<in>set (map strip_link toks). cp CHR '' '' \<notin> set t"
  proof
    fix t assume "t \<in> set (map strip_link toks)"
    then obtain t0 where t0: "t0 \<in> set toks" "t = strip_link t0" by auto
    have "cp CHR '' '' \<notin> set t0" using t0(1) unfolding toks_def by (rule split_no_space)
    then show "cp CHR '' '' \<notin> set t" using strip_link_set [of t0] t0(2) by blast
  qed
  with toks_ne have sp: "split_sp u = map strip_link toks"
    unfolding u_def by (rule split_join)
  have none: "\<forall>t\<in>set (split_sp u).
      re_match SLACK_USERMENTION_REGEX t = None \<and> re_match LINK_REGEX t = None"
  proof
    fix t assume "t \<in> set (split_sp u)"
    then obtain t0 where t0: "t0 \<in> set toks" "t = strip_link t0" unfolding sp by auto
    show "re_match SLACK_USERMENTION_REGEX t = None \<and> re_match LINK_REGEX t = None"
    proof (cases "re_match LINK_REGEX t0 = None")
      case True
      then have "t = t0" using t0(2) by (simp add: strip_link_def)
      with True nm t0(1) show ?thesis by simp
    next
      case False
      then have "cp CHR ''<'' \<notin> set t" unfolding t0(2) by (rule strip_link_no_lt)
      then show ?thesis by (rule no_lt_no_match)
    qed
  qed
  have second: "convert_to_zulip_markdown users added_users u = Inr (u, [], False)"
    using passes no_ev none by (rule convert_unchanged)
  from first second show ?thesis by blast
qed

theorem rewrite_idempotent_witness:
  "(\<exists>u link.
      convert_to_zulip_markdown [bob] [str ''U1'' \<mapsto> 7]
        (str ''<!everyone> see <https://example.com> now'') = Inr (u, [], link)
      \<and> convert_to_zulip_markdown [bob] [str ''U1'' \<mapsto> 7] u = Inr (u, [], False))
   \<and> convert_to_zulip_markdown [bob] [str ''U1'' \<mapsto> 7]
        (str ''<!everyone> see <https://example.com> now'') =
      Inr (str ''@**all** see https://example.com now'', [], True)"
proof -
  let ?t = "str ''<!everyone> see <https://example.com> now''"
  have a: "cp CHR ''~'' \<notin> set ?t" "cp CHR ''_'' \<notin> set ?t" "cp CHR ''*'' \<notin> set ?t"
    by simp_all
  have b: "\<forall>t\<in>set (split_sp (replace_str (str ''<!everyone>'') (str ''@**all**'') ?t)).
           re_match SLACK_USERMENTION_REGEX t = None"
    by (simp add: eval_simps)
  have c: "convert_to_zulip_markdown [bob] [str ''U1'' \<mapsto> 7] ?t =
      Inr (str ''@**all** see https://example.com now'', [], True)"
    by (simp add: eval_simps)
  show ?thesis
    using rewrite_idempotent [OF a b, of "[bob]" "[str ''U1'' \<mapsto> 7]"] c by blast
qed


section \<open>Mentions that no directory entry matches\<close>

text \<open>The first match of a sequence, a group, a literal and an optional part.\<close>

lemma heads_Seq: "heads a st x \<Longrightarrow> heads b x y \<Longrightarrow> heads (Seq a b) st y"
  by (auto simp: heads_def)

lemma heads_Grp: "heads r st x \<Longrightarrow> heads (Grp n r) st (capture n st x)"
  by (auto simp: heads_def)

lemma heads_Lit: "rest st = cp a # r \<Longrightarrow> heads (Lit a) st (advance st)"
  by (auto simp: heads_def step_if_def)

lemma heads_opt_taken:
  assumes "heads r st x" "length (rest x) < length (rest st)"
  shows "heads (opt r) st x"
proof -
  from assms(1) obtain tl where "ms r st = x # tl" by (auto simp: heads_def)
  then show ?thesis
    using assms(2) unfolding heads_def
    by (subst ms.simps(11)) (simp add: dec_hi_def ms.simps(11) [of r 0 "Some 0"])
qed

lemma heads_opt_skipped: "ms r st = [] \<Longrightarrow> heads (opt r) st st"
  unfolding heads_def by (subst ms.simps(11)) simp

text \<open>A greedy repetition of a character class takes all the characters of the class.\<close>

lemma skip_0: "skip 0 st = st"
  by (simp add: skip_def)

lemma skip_Suc: "rest st \<noteq> [] \<Longrightarrow> skip (Suc n) st = skip n (advance st)"
  by (cases "rest st") (auto simp: skip_def advance_def drop_Suc)

lemma heads_star_cls:
  assumes "\<forall>c\<in>set w. in_class is c" "r = [] \<or> \<not> in_class is (hd r)"
  shows "rest st = w @ r \<Longrightarrow> heads (star (Cls is)) st (skip (length w) st)"
  using assms(1)
proof (induction w arbitrary: st)
  case Nil
  then have "ms (Cls is) st = []"
    using assms(2) by (cases r) (auto simp: step_if_def)
  then show ?case
    unfolding heads_def by (subst ms.simps(11)) (simp add: skip_0)
next
  case (Cons c w)
  have a: "step_if (in_class is) st = [advance st]"
    using Cons.prems by (simp add: step_if_def)
  have r: "rest (advance st) = w @ r" using Cons.prems(1) by (simp add: advance_def)
  have "heads (star (Cls is)) (advance st) (skip (length w) (advance st))"
    using r Cons.prems(2) by (intro Cons.IH) simp_all
  then obtain tl where tl: "ms (star (Cls is)) (advance st) = skip (length w) (advance st) # tl"
    by (auto simp: heads_def)
  have sk: "skip (length (c # w)) st = skip (length w) (advance st)"
    using Cons.prems(1) by (simp add: skip_Suc)
  have len: "length (rest (advance st)) < length (rest st)"
    using Cons.prems(1) by (simp add: advance_def)
  show ?case
    unfolding heads_def sk
    by (subst ms.simps(11)) (simp add: a len tl dec_hi_def)
qed

lemma heads_plus_cls:
  assumes "\<forall>c\<in>set w. in_class is c" "r = [] \<or> \<not> in_class is (hd r)" "w \<noteq> []"
    and "rest st = w @ r"
  shows "heads (plus (Cls is)) st (skip (length w) st)"
proof -
  obtain c w' where w: "w = c # w'" using assms(3) by (cases w) auto
  have a: "step_if (in_class is) st = [advance st]"
    using assms(1,4) by (simp add: step_if_def w)
  have r: "rest (advance st) = w' @ r" using assms(4) by (simp add: advance_def w)
  have w': "\<forall>c\<in>set w'. in_class is c" using assms(1) w by simp
  have "heads (star (Cls is)) (advance st) (skip (length w') (advance st))"
    by (rule heads_star_cls [OF w' assms(2) r])
  then obtain tl where tl: "ms (star (Cls is)) (advance st) = skip (length w') (advance st) # tl"
    by (auto simp: heads_def)
  have sk: "skip (length w) st = skip (length w') (advance st)"
    using assms(4) by (simp add: skip_Suc w)
  have len: "length (rest (advance st)) < length (rest st)"
    using assms(4) by (simp add: advance_def w)
  show ?thesis
    unfolding heads_def sk
    by (subst ms.simps(11)) (simp add: a len tl dec_hi_def)
qed

text \<open>The match of the mention pattern on \<open><@ID|handle>\<close> and on \<open><@ID>\<close>.\<close>

lemma heads_match_at:
  "heads r \<lparr>pos = p, rest = s, caps = []\<rparr> x \<Longrightarrow>
   match_at r p s = Some \<lparr>m_start = p, m_end = pos x, m_groups = caps x\<rparr>"
  by (auto simp: heads_def match_at_def)

lemma mention_token_handle:
  assumes "sid \<noteq> []" "\<forall>c\<in>set sid. is_alnum c" "sn \<noteq> []" "\<forall>c\<in>set sn. is_alnum c"
  shows "\<exists>mt. match_at SLACK_USERMENTION_REGEX 0
             (str ''<@'' @ sid @ cp CHR ''|'' # sn @ [cp CHR ''>'']) = Some mt
           \<and> group mt 2 = Some sid \<and> group mt 4 = Some sn"
proof -
  let ?r2 = "cp CHR ''|'' # sn @ [cp CHR ''>'']"
  let ?tok = "str ''<@'' @ sid @ ?r2"
  let ?s0 = "\<lparr>pos = 0, rest = ?tok, caps = []\<rparr>"
  let ?s1 = "\<lparr>pos = 2, rest = sid @ ?r2, caps = [(1, str ''<@'')]\<rparr>"
  let ?s2 = "\<lparr>pos = Suc (Suc (length sid)), rest = ?r2, caps = [(2, sid), (1, str ''<@'')]\<rparr>"
  let ?s3 = "\<lparr>pos = Suc (Suc (Suc (length sid))), rest = sn @ [cp CHR ''>''],
             caps = [(3, [cp CHR ''|'']), (2, sid), (1, str ''<@'')]\<rparr>"
  let ?s4 = "\<lparr>pos = Suc (Suc (Suc (length sid + length sn))), rest = [cp CHR ''>''],
             caps = [(4, sn), (3, [cp CHR ''|'']), (2, sid), (1, str ''<@'')]\<rparr>"
  let ?s5 = "\<lparr>pos = Suc (Suc (Suc (Suc (length sid + length sn)))), rest = [],
             caps = [(5, [cp CHR ''>'']), (4, sn), (3, [cp CHR ''|'']), (2, sid), (1, str ''<@'')]\<rparr>"
  have g1: "heads (Grp 1 (lit ''<@'')) ?s0 ?s1"
    by (simp add: heads_def lit_def step_if_def advance_def capture_def)
  have "heads (plus (Cls [Rg CHR ''a'' CHR ''z'', Rg CHR ''A'' CHR ''Z'', Rg CHR ''0'' CHR ''9'']))
      ?s1 (skip (length sid) ?s1)"
    using assms(2) _ assms(1) by (rule heads_plus_cls) simp_all
  then have "heads (Grp 2 (plus alnum)) ?s1 (capture 2 ?s1 (skip (length sid) ?s1))"
    unfolding alnum_def by (rule heads_Grp)
  then have g2: "heads (Grp 2 (plus alnum)) ?s1 ?s2"
    by (simp add: capture_def skip_def)
  have "heads (Grp 3 (Lit CHR ''|'')) ?s2 (capture 3 ?s2 (advance ?s2))"
    by (rule heads_Grp, rule heads_Lit) simp
  then have "heads (Grp 3 (Lit CHR ''|'')) ?s2 ?s3"
    by (simp add: capture_def advance_def)
  then have g3: "heads (opt (Grp 3 (Lit CHR ''|''))) ?s2 ?s3"
    by (rule heads_opt_taken) simp
  have "heads (plus (Cls [Rg CHR ''a'' CHR ''z'', Rg CHR ''A'' CHR ''Z'', Rg CHR ''0'' CHR ''9'']))
      ?s3 (skip (length sn) ?s3)"
    using assms(4) _ assms(3) by (rule heads_plus_cls) simp_all
  then have "heads (Grp 4 (plus alnum)) ?s3 (capture 4 ?s3 (skip (length sn) ?s3))"
    unfolding alnum_def by (rule heads_Grp)
  then have "heads (Grp 4 (plus alnum)) ?s3 ?s4"
    by (simp add: capture_def skip_def)
  then have g4: "heads (opt (Grp 4 (plus alnum))) ?s3 ?s4"
    by (rule heads_opt_taken) (use assms(3) in simp)
  have "heads (Grp 5 (Lit CHR ''>'')) ?s4 (capture 5 ?s4 (advance ?s4))"
    by (rule heads_Grp, rule heads_Lit) simp
  then have g5: "heads (Grp 5 (Lit CHR ''>'')) ?s4 ?s5"
    by (simp add: capture_def advance_def)
  have "heads SLACK_USERMENTION_REGEX ?s0 ?s5"
    unfolding SLACK_USERMENTION_REGEX_def seqs.simps
    by (rule heads_Seq [OF g1], rule heads_Seq [OF g2], rule heads_Seq [OF g3],
        rule heads_Seq [OF g4], rule g5)
  then have "match_at SLACK_USERMENTION_REGEX 0 ?tok =
      Some \<lparr>m_start = 0, m_end = pos ?s5, m_groups = caps ?s5\<rparr>"
    by (rule heads_match_at)
  then show ?thesis
    by (simp add: group_def)
qed

lemma mention_token_plain:
  assumes "sid \<noteq> []" "\<forall>c\<in>set sid. is_alnum c"
  shows "\<exists>mt. match_at SLACK_USERMENTION_REGEX 0 (str ''<@'' @ sid @ [cp CHR ''>'']) = Some mt
           \<and> group mt 2 = Some sid \<and> group mt 4 = None"
proof -
  let ?r2 = "[cp CHR ''>'']"
  let ?tok = "str ''<@'' @ sid @ ?r2"
  let ?s0 = "\<lparr>pos = 0, rest = ?tok, caps = []\<rparr>"
  let ?s1 = "\<lparr>pos = 2, rest = sid @ ?r2, caps = [(1, str ''<@'')]\<rparr>"
  let ?s2 = "\<lparr>pos = Suc (Suc (length sid)), rest = ?r2, caps = [(2, sid), (1, str ''<@'')]\<rparr>"
  let ?s5 = "\<lparr>pos = Suc (Suc (Suc (length sid))), rest = [],
             caps = [(5, [cp CHR ''>'']), (2, sid), (1, str ''<@'')]\<rparr>"
  have g1: "heads (Grp 1 (lit ''<@'')) ?s0 ?s1"
    by (simp add: heads_def lit_def step_if_def advance_def capture_def)
  have "heads (plus (Cls [Rg CHR ''a'' CHR ''z'', Rg CHR ''A'' CHR ''Z'', Rg CHR ''0'' CHR ''9'']))
      ?s1 (skip (length sid) ?s1)"
    using assms(2) _ assms(1) by (rule heads_plus_cls) simp_all
  then have "heads (Grp 2 (plus alnum)) ?s1 (capture 2 ?s1 (skip (length sid) ?s1))"
    unfolding alnum_def by (rule heads_Grp)
  then have g2: "heads (Grp 2 (plus alnum)) ?s1 ?s2"
    by (simp add: capture_def skip_def)
  have "ms (Grp 3 (Lit CHR ''|'')) ?s2 = []"
    by (simp add: step_if_def)
  then have g3: "heads (opt (Grp 3 (Lit CHR ''|''))) ?s2 ?s2"
    by (rule heads_opt_skipped)
  have "ms (Grp 4 (plus alnum)) ?s2 = []"
    unfolding alnum_def by (subst ms.simps(10), subst ms.simps(11)) (simp add: step_if_def)
  then have g4: "heads (opt (Grp 4 (plus alnum))) ?s2 ?s2"
    by (rule heads_opt_skipped)
  have "heads (Grp 5 (Lit CHR ''>'')) ?s2 (capture 5 ?s2 (advance ?s2))"
    by (rule heads_Grp, rule heads_Lit) simp
  then have g5: "heads (Grp 5 (Lit CHR ''>'')) ?s2 ?s5"
    by (simp add: capture_def advance_def)
  have "heads SLACK_USERMENTION_REGEX ?s0 ?s5"
    unfolding SLACK_USERMENTION_REGEX_def seqs.simps
    by (rule heads_Seq [OF g1], rule heads_Seq [OF g2], rule heads_Seq [OF g3],
        rule heads_Seq [OF g4], rule g5)
  then have "match_at SLACK_USERMENTION_REGEX 0 ?tok =
      Some \<lparr>m_start = 0, m_end = pos ?s5, m_groups = caps ?s5\<rparr>"
    by (rule heads_match_at)
  then show ?thesis
    by (simp add: group_def)
qed

text \<open>A token that consists of a mention whose groups no directory entry matches.\<close>

lemma unmatched_token:
  assumes "match_at SLACK_USERMENTION_REGEX 0 tok = Some mt"
    and "\<forall>u\<in>set users. \<not> mention_matches u (group mt 2) (group mt 4)"
    and "cp CHR ''~'' \<notin> set tok" "cp CHR ''_'' \<notin> set tok" "cp CHR ''*'' \<notin> set tok"
    and "cp CHR ''!'' \<notin> set tok" "cp CHR '' '' \<notin> set tok"
  shows "convert_to_zulip_markdown users added_users tok = Inl UnboundLocalError"
proof -
  have p: "markdown_passes tok = Inr tok"
    using assms(3-5) by (rule markdown_passes_plain)
  have "\<not> sublist (str ''<!everyone>'') tok"
  proof
    assume "sublist (str ''<!everyone>'') tok"
    then have "set (str ''<!everyone>'') \<subseteq> set tok" by (rule set_mono_sublist)
    with assms(6) show False by simp
  qed
  then have r: "replace_str (str ''<!everyone>'') (str ''@**all**'') tok = tok"
    by (rule replace_absent)
  have s: "split_sp tok = [tok]" using assms(7) by (rule split_plain)
  have m: "re_match SLACK_USERMENTION_REGEX tok = Some mt"
    using assms(1) by (simp add: re_match_def)
  have se: "re_search SLACK_USERMENTION_REGEX tok = Some mt"
    using assms(1) by (cases tok) (simp_all add: re_search_def)
  have l: "users_loop users added_users (group mt 2) (group mt 4) None = Inr None"
    using assms(2) by (rule users_loop_unmatched)
  have "convert_token users added_users tok = Inl UnboundLocalError"
    by (simp add: convert_token_def get_user_mentions_def m se l)
  then show ?thesis
    using r s by (simp add: convert_to_zulip_markdown_def p)
qed

lemma alnum_chars:
  assumes "\<forall>c\<in>set w. is_alnum c"
  shows "cp CHR ''~'' \<notin> set w" "cp CHR ''_'' \<notin> set w" "cp CHR ''*'' \<notin> set w"
    "cp CHR ''!'' \<notin> set w" "cp CHR '' '' \<notin> set w"
  using assms by auto

text \<open>
  C1. A token \<open><@ID>\<close> or \<open><@ID|handle>\<close> (\<open>ID\<close> and \<open>handle\<close> made of letters and
  digits) for which the directory has no entry with that identifier and, when there is a
  handle, that handle: the loop of \<open>get_user_mentions\<close> leaves \<open>mention\<close> unbound, and
  the call of \<open>re.sub\<close> that reads it raises \<open>UnboundLocalError\<close>. The token is not
  left unchanged.
\<close>

theorem unmatched_mention_raises:
  assumes "sid \<noteq> []" "\<forall>c\<in>set sid. is_alnum c" "\<forall>c\<in>set sn. is_alnum c"
  shows "((\<forall>u\<in>set users. u_id u \<noteq> sid) \<longrightarrow>
            convert_to_zulip_markdown users added_users (str ''<@'' @ sid @ str ''>'') =
              Inl UnboundLocalError)
       \<and> (sn \<noteq> [] \<and> (\<forall>u\<in>set users. \<not> (u_id u = sid \<and> u_name u = sn)) \<longrightarrow>
            convert_to_zulip_markdown users added_users
              (str ''<@'' @ sid @ str ''|'' @ sn @ str ''>'') = Inl UnboundLocalError)"
proof (intro conjI impI)
  assume no: "\<forall>u\<in>set users. u_id u \<noteq> sid"
  let ?tok = "str ''<@'' @ sid @ [cp CHR ''>'']"
  obtain mt where mt: "match_at SLACK_USERMENTION_REGEX 0 ?tok = Some mt"
    "group mt 2 = Some sid" "group mt 4 = None"
    using mention_token_plain [OF assms(1,2)] by blast
  have "\<forall>u\<in>set users. \<not> mention_matches u (group mt 2) (group mt 4)"
    using no unfolding mt mention_matches_def by simp
  then have "convert_to_zulip_markdown users added_users ?tok = Inl UnboundLocalError"
    using mt(1) alnum_chars [OF assms(2)] by (intro unmatched_token) simp_all
  then show "convert_to_zulip_markdown users added_users (str ''<@'' @ sid @ str ''>'') =
      Inl UnboundLocalError"
    by simp
next
  assume a: "sn \<noteq> [] \<and> (\<forall>u\<in>set users. \<not> (u_id u = sid \<and> u_name u = sn))"
  let ?tok = "str ''<@'' @ sid @ cp CHR ''|'' # sn @ [cp CHR ''>'']"
  obtain mt where mt: "match_at SLACK_USERMENTION_REGEX 0 ?tok = Some mt"
    "group mt 2 = Some sid" "group mt 4 = Some sn"
    using a mention_token_handle [OF assms(1,2) _ assms(3)] by blast
  have "\<forall>u\<in>set users. \<not> mention_matches u (group mt 2) (group mt 4)"
    using a unfolding mt mention_matches_def by auto
  then have "convert_to_zulip_markdown users added_users ?tok = Inl UnboundLocalError"
    using mt(1) alnum_chars [OF assms(2)] alnum_chars [OF assms(3)]
    by (intro unmatched_token) simp_all
  then show "convert_to_zulip_markdown users added_users
      (str ''<@'' @ sid @ str ''|'' @ sn @ str ''>'') = Inl UnboundLocalError"
    by simp
qed

theorem unmatched_mention_raises_witness:
  "convert_to_zulip_markdown [bob] [str ''U1'' \<mapsto> 7] (str ''<@U1|alice>'') =
     Inl UnboundLocalError
   \<and> convert_to_zulip_markdown [bob] [str ''U1'' \<mapsto> 7] (str ''<@U9>'') =
     Inl UnboundLocalError"
proof -
  have a: "str ''U1'' \<noteq> []" "\<forall>c\<in>set (str ''U1''). is_alnum c"
    "\<forall>c\<in>set (str ''alice''). is_alnum c"
    by simp_all
  have b: "str ''alice'' \<noteq> [] \<and>
      (\<forall>u\<in>set [bob]. \<not> (u_id u = str ''U1'' \<and> u_name u = str ''alice''))"
    by (simp add: bob_def)
  have c: "str ''U9'' \<noteq> []" "\<forall>c\<in>set (str ''U9''). is_alnum c"
    by simp_all
  have d: "\<forall>u\<in>set [bob]. u_id u \<noteq> str ''U9''"
    by (simp add: bob_def)
  have "convert_to_zulip_markdown [bob] [str ''U1'' \<mapsto> 7]
      (str ''<@'' @ str ''U1'' @ str ''|'' @ str ''alice'' @ str ''>'') = Inl UnboundLocalError"
    using unmatched_mention_raises [OF a, of "[bob]" "[str ''U1'' \<mapsto> 7]"] b by blast
  moreover have "convert_to_zulip_markdown [bob] [str ''U1'' \<mapsto> 7]
      (str ''<@'' @ str ''U9'' @ str ''>'') = Inl UnboundLocalError"
    using unmatched_mention_raises [OF c a(3), of "[bob]" "[str ''U1'' \<mapsto> 7]"] d by blast
  ultimately show ?thesis by simp
qed

section \<open>A mention among other tokens\<close>

lemma tokens_loop_append:
  "tokens_loop users added_users (a @ b) st =
     (case tokens_loop users added_users a st of
        Inl e \<Rightarrow> Inl e
      | Inr st' \<Rightarrow> tokens_loop users added_users b st')"
proof (induction a arbitrary: st)
  case Nil
  show ?case by simp
next
  case (Cons t a)
  obtain d i l where st: "st = (d, i, l)" by (cases st) auto
  show ?case
    unfolding st by (simp add: Cons split: sum.split prod.split)
qed

lemma tokens_loop_plain:
  assumes "\<forall>t\<in>set ts. plain t"
  shows "tokens_loop users added_users ts (done, ids, link) = Inr (done @ ts, ids, link)"
proof -
  have "\<forall>t\<in>set ts. convert_token users added_users t = Inr (t, [], False)"
  proof
    fix t assume "t \<in> set ts"
    with assms have "cp CHR ''<'' \<notin> set t" by (simp add: plain_def)
    then have "re_match SLACK_USERMENTION_REGEX t = None \<and> re_match LINK_REGEX t = None"
      by (rule no_lt_no_match)
    then show "convert_token users added_users t = Inr (t, [], False)"
      by (simp add: convert_token_plain)
  qed
  then show ?thesis by (rule tokens_loop_unchanged)
qed

text \<open>
  C4, amended. For every directory in which \<open>bob\<close> is the entry of id \<open>U1\<close>, every
  \<open>added_users\<close> that maps \<open>U1\<close> to a Zulip id \<open>n\<close>, and every text in which the token
  \<open><@U1|bob>\<close> stands among plain tokens, the token becomes \<open>@**Bob Smith** \<close>, the
  other tokens stay, and the list of mentioned users is \<open>[n]\<close>.
\<close>

theorem mention_resolution:
  assumes "bob \<in> set users"
    and "\<forall>u\<in>set users. u_id u = str ''U1'' \<longrightarrow> u = bob"
    and "added_users (str ''U1'') = Some n"
    and "\<forall>t\<in>set (pre @ post). plain t"
  shows "convert_to_zulip_markdown users added_users (join_sp (pre @ [str ''<@U1|bob>''] @ post)) =
         Inr (join_sp (pre @ [str ''@**Bob Smith** ''] @ post), [n], False)"
proof -
  let ?tok = "str ''<@U1|bob>''"
  let ?toks = "pre @ [?tok] @ post"
  let ?text = "join_sp ?toks"
  have pre: "\<forall>t\<in>set pre. plain t" and post: "\<forall>t\<in>set post. plain t"
    using assms(4) by auto
  \<comment> \<open>the token\<close>
  have m: "mention_matches bob (Some (str ''U1'')) (Some (str ''bob''))"
    by (simp add: mention_matches_def truthy_def bob_def)
  have l: "lookup_added added_users (Some (str ''U1'')) = Inr n"
    using assms(3) by (simp add: lookup_added_def)
  have u: "\<forall>u\<in>set users.
      mention_matches u (Some (str ''U1'')) (Some (str ''bob'')) \<longrightarrow> u = bob"
    using assms(2) unfolding mention_matches_def by blast
  have "users_loop users added_users (Some (str ''U1'')) (Some (str ''bob'')) None =
      Inr (Some (str ''@**'' @ get_user_full_name bob @ str ''** '', n))"
    by (rule users_loop_unique [OF assms(1) u m l])
  then have loop: "users_loop users added_users (Some (str ''U1'')) (Some (str ''bob'')) None =
      Inr (Some (str ''@**Bob Smith** '', n))"
    by (simp add: get_user_full_name_def bob_def)
  have tok: "convert_token users added_users ?tok = Inr (str ''@**Bob Smith** '', [n], False)"
    using loop by (simp add: eval_simps)
  \<comment> \<open>the text around it\<close>
  have mem: "t = ?tok \<or> plain t" if "t \<in> set ?toks" for t
    using that assms(4) by auto
  have chars: "x = cp CHR '' '' \<or> x \<in> set ?tok \<or> (\<exists>t. plain t \<and> x \<in> set t)"
    if "x \<in> set ?text" for x
    using set_join [OF that] mem by blast
  have d: "cp CHR ''~'' \<notin> set ?text" "cp CHR ''_'' \<notin> set ?text" "cp CHR ''*'' \<notin> set ?text"
    using chars [of "cp CHR ''~''"] chars [of "cp CHR ''_''"] chars [of "cp CHR ''*''"]
    by (auto simp: plain_def)
  have p: "markdown_passes ?text = Inr ?text"
    using d by (rule markdown_passes_plain)
  have "\<not> sublist (str ''<!everyone>'') ?text"
  proof
    assume "sublist (str ''<!everyone>'') ?text"
    then have "\<exists>t\<in>set ?toks. sublist (str ''<!everyone>'') t"
      by (intro sublist_join) simp_all
    then obtain t where t: "t \<in> set ?toks" "sublist (str ''<!everyone>'') t" by blast
    from t(2) have s: "set (str ''<!everyone>'') \<subseteq> set t" by (rule set_mono_sublist)
    from mem [OF t(1)] show False
    proof
      assume "t = ?tok"
      with s show False by simp
    next
      assume "plain t"
      with s show False by (simp add: plain_def)
    qed
  qed
  then have r: "replace_str (str ''<!everyone>'') (str ''@**all**'') ?text = ?text"
    by (rule replace_absent)
  have "cp CHR '' '' \<notin> set t" if "t \<in> set ?toks" for t
    using mem [OF that] by (auto simp: plain_def)
  then have "\<forall>t\<in>set ?toks. cp CHR '' '' \<notin> set t"
    by blast
  then have s: "split_sp ?text = ?toks"
    by (intro split_join) simp_all
  have "tokens_loop users added_users ?toks ([], [], False) =
      Inr (pre @ [str ''@**Bob Smith** ''] @ post, [n], False)"
    using tok
    by (simp add: tokens_loop_append tokens_loop_plain [OF pre] tokens_loop_plain [OF post])
  then show ?thesis
    using p r s by (simp add: convert_to_zulip_markdown_def)
qed

theorem mention_resolution_witness:
  "convert_to_zulip_markdown
     [\<lparr>u_id = str ''U2'', u_name = str ''alice'', u_real_name = [], u_deleted = False\<rparr>, bob]
     [str ''U2'' \<mapsto> 11, str ''U1'' \<mapsto> 12] (str ''hi <@U1|bob> there'') =
   Inr (str ''hi @**Bob Smith**  there'', [12], False)"
proof -
  let ?users =
    "[\<lparr>u_id = str ''U2'', u_name = str ''alice'', u_real_name = [], u_deleted = False\<rparr>, bob]"
  have a: "bob \<in> set ?users"
    by simp
  have b: "\<forall>u\<in>set ?users. u_id u = str ''U1'' \<longrightarrow> u = bob"
    by simp
  have c: "[str ''U2'' \<mapsto> 11, str ''U1'' \<mapsto> (12::int)] (str ''U1'') = Some 12"
    by simp
  have d: "\<forall>t\<in>set ([str ''hi''] @ [str ''there'']). plain t"
    by (simp add: plain_def)
  show ?thesis
    using mention_resolution
          [of ?users "[str ''U2'' \<mapsto> 11, str ''U1'' \<mapsto> 12]" 12 "[str ''hi'']" "[str ''there'']",
           OF a b c d]
    by simp
qed

end
